theory Spec2Isabelle
  imports Main "HOL-Library.AList"
begin

section \<open>Data model\<close>

text \<open>
  The WebSocket connection manager keeps two kinds of mutable objects: the sockets, which
  are shared between the server's own set \<open>wss.clients\<close> and the manager's registry
  \<open>this.clients\<close>, and the registry itself. Sockets live in a store indexed by object
  identity; the registry holds identities only.
\<close>

type_synonym ws_id = nat

datatype ready_state = CONNECTING | OPEN | CLOSING | CLOSED

text \<open>JSON documents: the payload of an event and the frames written to a socket.\<close>

datatype json =
    JString string
  | JNumber int
  | JBool bool
  | JObject "(string \<times> json) list"

text \<open>The union of string literals \<open>WebSocketEventType\<close>, and the literal of each member.\<close>

datatype WebSocketEventType =
    DeviceOnline
  | DeviceOffline
  | DeviceError
  | LampToggled
  | LampBrightnessChanged
  | PermissionGranted
  | PermissionRevoked
  | UserCreated
  | UserUpdated
  | UserDeleted
  | AlertCreated
  | AlertResolved
  | SystemMaintenanceMode
  | SystemConfigUpdated

fun type_literal :: "WebSocketEventType \<Rightarrow> string" where
  "type_literal DeviceOnline = ''device:online''"
| "type_literal DeviceOffline = ''device:offline''"
| "type_literal DeviceError = ''device:error''"
| "type_literal LampToggled = ''lamp:toggled''"
| "type_literal LampBrightnessChanged = ''lamp:brightness_changed''"
| "type_literal PermissionGranted = ''permission:granted''"
| "type_literal PermissionRevoked = ''permission:revoked''"
| "type_literal UserCreated = ''user:created''"
| "type_literal UserUpdated = ''user:updated''"
| "type_literal UserDeleted = ''user:deleted''"
| "type_literal AlertCreated = ''alert:created''"
| "type_literal AlertResolved = ''alert:resolved''"
| "type_literal SystemMaintenanceMode = ''system:maintenance_mode''"
| "type_literal SystemConfigUpdated = ''system:config_updated''"

text \<open>\<open>interface WebSocketEvent\<close>: \<open>userId\<close> is optional.\<close>

record WebSocketEvent =
  ev_type :: WebSocketEventType
  ev_timestamp :: string
  ev_data :: json
  ev_userId :: "string option"

text \<open>\<open>interface JWTPayload\<close>. The role is a string at run time.\<close>

record JWTPayload =
  userId :: string
  username :: string
  email :: string
  role :: string

text \<open>
  \<open>interface AuthenticatedWebSocket extends WebSocket\<close>: the four optional fields the
  manager attaches, and what the model keeps of the socket underneath: its
  \<open>readyState\<close>, whether the handler has attached its listeners (\<open>pong\<close>,
  \<open>message\<close>, \<open>close\<close>, \<open>error\<close>), the frames written with \<open>send\<close>, the number
  of pings written, and the code and reason of a \<open>close\<close> call.
\<close>

record AuthenticatedWebSocket =
  ws_userId :: "string option"
  ws_username :: "string option"
  ws_role :: "string option"
  ws_isAlive :: "bool option"
  readyState :: ready_state
  listening :: bool
  sent :: "json list"
  pings :: nat
  closeFrame :: "(nat \<times> string) option"

text \<open>
  \<open>class WebSocketManager\<close>. \<open>clients\<close> is the \<open>Map<string, Set<...>>\<close>: a JavaScript
  \<open>Map\<close> and a \<open>Set\<close> iterate in insertion order, so the map is an association list and
  each set a list. \<open>wss_clients\<close> is the server's \<open>wss.clients\<close>, and \<open>next_ws\<close> the
  identity the next accepted socket gets.
\<close>

record WebSocketManager =
  sockets :: "ws_id \<Rightarrow> AuthenticatedWebSocket"
  wss_clients :: "ws_id list"
  clients :: "(string \<times> ws_id list) list"
  next_ws :: ws_id

definition new_socket :: AuthenticatedWebSocket where
  "new_socket = \<lparr> ws_userId = None, ws_username = None, ws_role = None, ws_isAlive = None,
     readyState = OPEN, listening = False, sent = [], pings = 0, closeFrame = None \<rparr>"

definition initial :: WebSocketManager where
  "initial = \<lparr> sockets = (\<lambda>_. new_socket), wss_clients = [], clients = [], next_ws = 0 \<rparr>"

text \<open>Updating one socket of the store in place.\<close>

definition modify :: "ws_id \<Rightarrow> (AuthenticatedWebSocket \<Rightarrow> AuthenticatedWebSocket) \<Rightarrow>
    WebSocketManager \<Rightarrow> WebSocketManager" where
  "modify c f s = s\<lparr>sockets := (sockets s)(c := f (sockets s c))\<rparr>"

section \<open>The registry\<close>

text \<open>\<open>Set.prototype.add\<close> and \<open>Set.prototype.delete\<close>.\<close>

definition Set_add :: "'a list \<Rightarrow> 'a \<Rightarrow> 'a list" where
  "Set_add xs x = (if x \<in> set xs then xs else xs @ [x])"

definition Set_delete :: "'a list \<Rightarrow> 'a \<Rightarrow> 'a list" where
  "Set_delete xs x = removeAll x xs"

text \<open>
  A string used as a condition: \<open>undefined\<close>, \<open>null\<close> and the empty string are falsy.
\<close>

fun truthy :: "string option \<Rightarrow> bool" where
  "truthy None = False"
| "truthy (Some v) = (v \<noteq> [])"

text \<open>
  Registration, in the connection handler:
  \<^verbatim>\<open>
  if (!this.clients.has(payload.userId)) {
    this.clients.set(payload.userId, new Set());
  }
  this.clients.get(payload.userId)!.add(ws);
  \<close>
  \<open>Map.prototype.set\<close> is \<open>AList.update\<close>: it replaces the value of a key in place
  and appends a new key. After the \<open>set\<close> the key is there, so the \<open>None\<close> branch of
  the lookup is never taken.
\<close>

definition register :: "string \<Rightarrow> ws_id \<Rightarrow> (string \<times> ws_id list) list \<Rightarrow>
    (string \<times> ws_id list) list" where
  "register uid c m =
     (let m1 = (if map_of m uid = None then AList.update uid [] m else m)
      in case map_of m1 uid of
           None \<Rightarrow> m1
         | Some userClients \<Rightarrow> AList.update uid (Set_add userClients c) m1)"

text \<open>
  The \<open>close\<close> listener:
  \<^verbatim>\<open>
  if (ws.userId) {
    const userClients = this.clients.get(ws.userId);
    if (userClients) {
      userClients.delete(ws);
      if (userClients.size === 0) {
        this.clients.delete(ws.userId);
      }
    }
  }
  \<close>
\<close>

definition close_handler :: "ws_id \<Rightarrow> WebSocketManager \<Rightarrow> WebSocketManager" where
  "close_handler c s =
     (case ws_userId (sockets s c) of
        None \<Rightarrow> s
      | Some uid \<Rightarrow>
          if \<not> truthy (Some uid) then s
          else (case map_of (clients s) uid of
                  None \<Rightarrow> s
                | Some userClients \<Rightarrow>
                    (let remaining = Set_delete userClients c
                     in if length remaining = 0
                        then s\<lparr>clients := AList.delete uid (clients s)\<rparr>
                        else s\<lparr>clients := AList.update uid remaining (clients s)\<rparr>)))"

definition getConnectedCount :: "WebSocketManager \<Rightarrow> nat" where
  "getConnectedCount s = length (clients s)"

definition getConnectedUserIds :: "WebSocketManager \<Rightarrow> string list" where
  "getConnectedUserIds s = map fst (clients s)"

text \<open>Connection \<open>c\<close> is in the set the registry holds for subject \<open>uid\<close>.\<close>

definition registered :: "WebSocketManager \<Rightarrow> string \<Rightarrow> ws_id \<Rightarrow> bool" where
  "registered s uid c =
     (case map_of (clients s) uid of None \<Rightarrow> False | Some userClients \<Rightarrow> c \<in> set userClients)"

text \<open>The number of registered connections: the sizes of all the sets, added up.\<close>

definition connectionTotal :: "WebSocketManager \<Rightarrow> nat" where
  "connectionTotal s = length (concat (map snd (clients s)))"

text \<open>
  The invariant of the registry. A \<open>Map\<close> has each key once and a \<open>Set\<close> each member
  once; beyond that, no key has an empty set, and the sets of two subjects share no
  connection.
\<close>

definition registry_inv :: "WebSocketManager \<Rightarrow> bool" where
  "registry_inv s \<longleftrightarrow>
     distinct (map fst (clients s)) \<and>
     (\<forall>entry \<in> set (clients s). snd entry \<noteq> [] \<and> distinct (snd entry)) \<and>
     (\<forall>entry \<in> set (clients s). \<forall>entry' \<in> set (clients s).
        fst entry \<noteq> fst entry' \<longrightarrow> set (snd entry) \<inter> set (snd entry') = {})"

section \<open>Events and delivery\<close>

text \<open>\<open>createEvent\<close>; the clock read by \<open>new Date().toISOString()\<close> is the argument \<open>now\<close>.\<close>

definition createEvent :: "string \<Rightarrow> WebSocketEventType \<Rightarrow> json \<Rightarrow> string option \<Rightarrow> WebSocketEvent" where
  "createEvent now type payload uid =
     \<lparr> ev_type = type, ev_timestamp = now, ev_data = payload, ev_userId = uid \<rparr>"

text \<open>
  \<open>JSON.stringify(event)\<close>, as the JSON document the text denotes: the properties in the
  order of the object literal, and a property whose value is \<open>undefined\<close> left out.
\<close>

definition JSON_stringify :: "WebSocketEvent \<Rightarrow> json" where
  "JSON_stringify event =
     JObject ([(''type'', JString (type_literal (ev_type event))),
               (''timestamp'', JString (ev_timestamp event)),
               (''data'', ev_data event)] @
              (case ev_userId event of None \<Rightarrow> [] | Some u \<Rightarrow> [(''userId'', JString u)]))"

text \<open>A property of a frame, as a client reads it.\<close>

fun field :: "string \<Rightarrow> json \<Rightarrow> json option" where
  "field k (JObject kvs) = map_of kvs k"
| "field k (JString v) = None"
| "field k (JNumber v) = None"
| "field k (JBool v) = None"

definition sendToClient :: "ws_id \<Rightarrow> WebSocketEvent \<Rightarrow> WebSocketManager \<Rightarrow> WebSocketManager" where
  "sendToClient c event s =
     (if readyState (sockets s c) = OPEN
      then modify c (\<lambda>w. w\<lparr>sent := sent w @ [JSON_stringify event]\<rparr>) s
      else s)"

definition broadcastToUser :: "string \<Rightarrow> WebSocketEvent \<Rightarrow> WebSocketManager \<Rightarrow> WebSocketManager" where
  "broadcastToUser uid event s =
     (case map_of (clients s) uid of
        None \<Rightarrow> s
      | Some userClients \<Rightarrow> fold (\<lambda>c. sendToClient c event) userClients s)"

definition broadcastToAll :: "WebSocketEvent \<Rightarrow> WebSocketManager \<Rightarrow> WebSocketManager" where
  "broadcastToAll event s =
     fold (\<lambda>entry. fold (\<lambda>c. sendToClient c event) (snd entry)) (clients s) s"

definition sendToAdmin :: "ws_id \<Rightarrow> WebSocketEvent \<Rightarrow> WebSocketManager \<Rightarrow> WebSocketManager" where
  "sendToAdmin c event s =
     (if ws_role (sockets s c) = Some ''admin'' \<or> ws_role (sockets s c) = Some ''super_admin''
      then sendToClient c event s
      else s)"

definition broadcastToAdmins :: "WebSocketEvent \<Rightarrow> WebSocketManager \<Rightarrow> WebSocketManager" where
  "broadcastToAdmins event s =
     fold (\<lambda>entry. fold (\<lambda>c. sendToAdmin c event) (snd entry)) (clients s) s"

definition broadcastToResourceUsers :: "string list \<Rightarrow> WebSocketEvent \<Rightarrow> WebSocketManager \<Rightarrow>
    WebSocketManager" where
  "broadcastToResourceUsers userIds event s = fold (\<lambda>uid. broadcastToUser uid event) userIds s"

subsection \<open>The event helpers\<close>

text \<open>Payloads of type \<open>any\<close> are JSON documents; the brightness is an integer.\<close>

definition broadcastDeviceOnline :: "string \<Rightarrow> string \<Rightarrow> string \<Rightarrow> WebSocketManager \<Rightarrow> WebSocketManager" where
  "broadcastDeviceOnline now controllerId controllerName =
     broadcastToAll (createEvent now DeviceOnline
       (JObject [(''controllerId'', JString controllerId), (''controllerName'', JString controllerName)]) None)"

definition broadcastDeviceOffline :: "string \<Rightarrow> string \<Rightarrow> string \<Rightarrow> WebSocketManager \<Rightarrow> WebSocketManager" where
  "broadcastDeviceOffline now controllerId controllerName =
     broadcastToAll (createEvent now DeviceOffline
       (JObject [(''controllerId'', JString controllerId), (''controllerName'', JString controllerName)]) None)"

definition broadcastDeviceError :: "string \<Rightarrow> string \<Rightarrow> string \<Rightarrow> WebSocketManager \<Rightarrow> WebSocketManager" where
  "broadcastDeviceError now controllerId err =
     broadcastToAdmins (createEvent now DeviceError
       (JObject [(''controllerId'', JString controllerId), (''error'', JString err)]) None)"

definition broadcastLampToggled :: "string \<Rightarrow> string \<Rightarrow> string \<Rightarrow> bool \<Rightarrow> string \<Rightarrow>
    WebSocketManager \<Rightarrow> WebSocketManager" where
  "broadcastLampToggled now lampId lampName isOn uid =
     broadcastToAll (createEvent now LampToggled
       (JObject [(''lampId'', JString lampId), (''lampName'', JString lampName), (''isOn'', JBool isOn)])
       (Some uid))"

definition broadcastLampBrightnessChanged :: "string \<Rightarrow> string \<Rightarrow> int \<Rightarrow> WebSocketManager \<Rightarrow> WebSocketManager" where
  "broadcastLampBrightnessChanged now lampId brightness =
     broadcastToAll (createEvent now LampBrightnessChanged
       (JObject [(''lampId'', JString lampId), (''brightness'', JNumber brightness)]) None)"

definition broadcastPermissionGranted :: "string \<Rightarrow> string \<Rightarrow> string \<Rightarrow> string \<Rightarrow> string \<Rightarrow>
    WebSocketManager \<Rightarrow> WebSocketManager" where
  "broadcastPermissionGranted now uid resourceType resourceId accessLevel =
     broadcastToUser uid (createEvent now PermissionGranted
       (JObject [(''resourceType'', JString resourceType), (''resourceId'', JString resourceId),
                 (''accessLevel'', JString accessLevel)])
       (Some uid))"

definition broadcastPermissionRevoked :: "string \<Rightarrow> string \<Rightarrow> string \<Rightarrow> WebSocketManager \<Rightarrow> WebSocketManager" where
  "broadcastPermissionRevoked now uid permissionId =
     broadcastToUser uid (createEvent now PermissionRevoked
       (JObject [(''permissionId'', JString permissionId)]) (Some uid))"

definition broadcastUserCreated :: "string \<Rightarrow> json \<Rightarrow> WebSocketManager \<Rightarrow> WebSocketManager" where
  "broadcastUserCreated now user =
     broadcastToAdmins (createEvent now UserCreated (JObject [(''user'', user)]) None)"

definition broadcastUserUpdated :: "string \<Rightarrow> string \<Rightarrow> json \<Rightarrow> WebSocketManager \<Rightarrow> WebSocketManager" where
  "broadcastUserUpdated now uid changes s =
     broadcastToUser uid
       (createEvent now UserUpdated (JObject [(''userId'', JString uid), (''changes'', changes)]) (Some uid))
       (broadcastToAdmins
          (createEvent now UserUpdated (JObject [(''userId'', JString uid), (''changes'', changes)]) None) s)"

definition broadcastUserDeleted :: "string \<Rightarrow> string \<Rightarrow> WebSocketManager \<Rightarrow> WebSocketManager" where
  "broadcastUserDeleted now uid =
     broadcastToAdmins (createEvent now UserDeleted (JObject [(''userId'', JString uid)]) None)"

definition broadcastAlertCreated :: "string \<Rightarrow> json \<Rightarrow> WebSocketManager \<Rightarrow> WebSocketManager" where
  "broadcastAlertCreated now alert =
     broadcastToAdmins (createEvent now AlertCreated (JObject [(''alert'', alert)]) None)"

definition broadcastAlertResolved :: "string \<Rightarrow> string \<Rightarrow> WebSocketManager \<Rightarrow> WebSocketManager" where
  "broadcastAlertResolved now alertId =
     broadcastToAdmins (createEvent now AlertResolved (JObject [(''alertId'', JString alertId)]) None)"

definition broadcastMaintenanceMode :: "string \<Rightarrow> bool \<Rightarrow> WebSocketManager \<Rightarrow> WebSocketManager" where
  "broadcastMaintenanceMode now enabled =
     broadcastToAll (createEvent now SystemMaintenanceMode (JObject [(''enabled'', JBool enabled)]) None)"

definition broadcastConfigUpdated :: "string \<Rightarrow> json \<Rightarrow> WebSocketManager \<Rightarrow> WebSocketManager" where
  "broadcastConfigUpdated now changes =
     broadcastToAdmins (createEvent now SystemConfigUpdated (JObject [(''changes'', changes)]) None)"

section \<open>Admission\<close>

text \<open>
  What the handler reads of the upgrade request: \<open>req.url\<close>, and the \<open>host\<close> and
  \<open>authorization\<close> headers, each of which may be missing.
\<close>

record IncomingMessage =
  url :: "string option"
  host :: "string option"
  authorization :: "string option"

text \<open>\<open>String.prototype.replace\<close> with a string pattern: the first occurrence only.\<close>

fun replace_first :: "string \<Rightarrow> string \<Rightarrow> string \<Rightarrow> string" where
  "replace_first pat rep [] = (if pat = [] then rep else [])"
| "replace_first pat rep (x # xs) =
     (if take (length pat) (x # xs) = pat
      then rep @ drop (length pat) (x # xs)
      else x # replace_first pat rep xs)"

text \<open>
  The token, for the search parameters of the parsed URL, in order, and the
  \<open>authorization\<close> header; \<open>URLSearchParams.get\<close> returns the first value of a name, or
  \<open>null\<close>.
  \<^verbatim>\<open>
  const token = url.searchParams.get('token')
             || req.headers.authorization?.replace('Bearer ', '');
  \<close>
\<close>

definition extract_token :: "(string \<times> string) list \<Rightarrow> string option \<Rightarrow> string option" where
  "extract_token searchParams header =
     (let fromQuery = map_of searchParams ''token''
      in if truthy fromQuery then fromQuery
         else map_option (replace_first ''Bearer '' []) header)"

text \<open>
  Two functions of libraries are parameters. \<open>jwt.verify\<close> depends on the secret and on
  the clock; it returns the claims or throws. The constructor \<open>URL\<close>, for an input and a
  base, returns the parsed URL, of which the handler reads the search parameters, or throws
  a \<open>TypeError\<close>. \<open>verifyToken\<close> catches what \<open>jwt.verify\<close> throws.
\<close>

datatype jwt_error = JsonWebTokenError | TokenExpiredError | NotBeforeError

datatype TypeError = ERR_INVALID_URL

record library =
  jwt_verify :: "string \<Rightarrow> jwt_error + JWTPayload"
  new_URL :: "string \<Rightarrow> string \<Rightarrow> TypeError + (string \<times> string) list"

definition verifyToken :: "library \<Rightarrow> string \<Rightarrow> JWTPayload option" where
  "verifyToken lib token =
     (case jwt_verify lib token of Inl e \<Rightarrow> None | Inr payload \<Rightarrow> Some payload)"

text \<open>
  \<^verbatim>\<open>
  const url = new URL(req.url || '', `http://${req.headers.host}`);
  \<close>
  A template literal prints a missing header as \<open>undefined\<close>.
\<close>

definition parse_url :: "library \<Rightarrow> IncomingMessage \<Rightarrow> TypeError + (string \<times> string) list" where
  "parse_url lib req =
     new_URL lib (case url req of None \<Rightarrow> [] | Some target \<Rightarrow> target)
       (''http://'' @ (case host req of None \<Rightarrow> ''undefined'' | Some h \<Rightarrow> h))"

text \<open>
  \<open>ws.close(code, reason)\<close> starts the closing handshake: the socket leaves the open state
  and the close frame carries the code and the reason.
\<close>

definition ws_close :: "nat \<Rightarrow> string \<Rightarrow> ws_id \<Rightarrow> WebSocketManager \<Rightarrow> WebSocketManager" where
  "ws_close code reason c s =
     modify c (\<lambda>w. w\<lparr>readyState := CLOSING, closeFrame := Some (code, reason)\<rparr>) s"

definition welcomeMessage :: "string \<Rightarrow> WebSocketEvent" where
  "welcomeMessage now =
     \<lparr> ev_type = SystemConfigUpdated, ev_timestamp = now,
       ev_data = JObject [(''message'', JString ''Connected to Admin Panel WebSocket'')],
       ev_userId = None \<rparr>"

text \<open>
  The listener of the server's \<open>connection\<close> event, on socket \<open>c\<close> and its request. The
  URL is parsed first, outside any \<open>try\<close>: when the constructor throws, the listener ends
  there, with nothing closed and nothing registered. Then come the two rejections, and
  identity, registration, welcome message and listeners.
\<close>

definition connection_handler :: "library \<Rightarrow> string \<Rightarrow> ws_id \<Rightarrow> IncomingMessage \<Rightarrow>
    WebSocketManager \<Rightarrow> TypeError + WebSocketManager" where
  "connection_handler lib now c req s =
     (case parse_url lib req of
        Inl e \<Rightarrow> Inl e
      | Inr searchParams \<Rightarrow>
          (case extract_token searchParams (authorization req) of
             None \<Rightarrow> Inr (ws_close 1008 ''Authentication required'' c s)
           | Some token \<Rightarrow>
               if \<not> truthy (Some token) then Inr (ws_close 1008 ''Authentication required'' c s)
               else (case verifyToken lib token of
                       None \<Rightarrow> Inr (ws_close 1008 ''Invalid token'' c s)
                     | Some payload \<Rightarrow>
                         Inr (let s1 = modify c (\<lambda>w. w\<lparr>ws_userId := Some (userId payload),
                                                       ws_username := Some (username payload),
                                                       ws_role := Some (role payload),
                                                       ws_isAlive := Some True\<rparr>) s;
                                  s2 = s1\<lparr>clients := register (userId payload) c (clients s1)\<rparr>;
                                  s3 = sendToClient c (welcomeMessage now) s2
                              in modify c (\<lambda>w. w\<lparr>listening := True\<rparr>) s3))))"

text \<open>The admitting branch of the handler, for the claims \<open>payload\<close>.\<close>

definition admit :: "JWTPayload \<Rightarrow> string \<Rightarrow> ws_id \<Rightarrow> WebSocketManager \<Rightarrow> WebSocketManager" where
  "admit payload now c s =
     modify c (\<lambda>w. w\<lparr>listening := True\<rparr>)
       (sendToClient c (welcomeMessage now)
         ((modify c (\<lambda>w. w\<lparr>ws_userId := Some (userId payload), ws_username := Some (username payload),
                             ws_role := Some (role payload), ws_isAlive := Some True\<rparr>) s)
           \<lparr>clients := register (userId payload) c (clients s)\<rparr>))"

section \<open>The server underneath and the heartbeat\<close>

text \<open>
  The \<open>ws\<close> server is a library. What the model takes from it: an accepted socket is a
  new object, open, already in \<open>wss.clients\<close> when the \<open>connection\<close> event fires; when a
  socket has closed, the server drops it from \<open>wss.clients\<close> and the socket emits
  \<open>close\<close> to the listeners it has; \<open>terminate\<close> destroys the transport, which closes the
  socket before the server handles anything else; \<open>ping\<close> writes a frame to an open
  socket. The model closes a terminated socket in place; closing it when the callback of
  the heartbeat has returned gives the same state (\<open>sweep_then_close_heartbeat\<close> below).
\<close>

definition accept :: "WebSocketManager \<Rightarrow> WebSocketManager" where
  "accept s = s\<lparr> sockets := (sockets s)(next_ws s := new_socket),
                 wss_clients := wss_clients s @ [next_ws s],
                 next_ws := Suc (next_ws s) \<rparr>"

definition emit_close :: "ws_id \<Rightarrow> WebSocketManager \<Rightarrow> WebSocketManager" where
  "emit_close c s =
     (let s1 = modify c (\<lambda>w. w\<lparr>readyState := CLOSED\<rparr>) s;
          s2 = s1\<lparr>wss_clients := removeAll c (wss_clients s1)\<rparr>
      in if listening (sockets s2 c) then close_handler c s2 else s2)"

definition terminate :: "ws_id \<Rightarrow> WebSocketManager \<Rightarrow> WebSocketManager" where
  "terminate c s = emit_close c s"

definition ping :: "ws_id \<Rightarrow> WebSocketManager \<Rightarrow> WebSocketManager" where
  "ping c s = (if readyState (sockets s c) = OPEN then modify c (\<lambda>w. w\<lparr>pings := Suc (pings w)\<rparr>) s else s)"

text \<open>The \<open>pong\<close> listener.\<close>

definition pong_handler :: "ws_id \<Rightarrow> WebSocketManager \<Rightarrow> WebSocketManager" where
  "pong_handler c s = modify c (\<lambda>w. w\<lparr>ws_isAlive := Some True\<rparr>) s"

text \<open>
  The \<open>message\<close> listener parses the text and hands it to \<open>handleClientMessage\<close>, which
  logs a subscription; a text that does not parse is logged. Neither touches the state.
\<close>

definition message_handler :: "ws_id \<Rightarrow> string \<Rightarrow> WebSocketManager \<Rightarrow> WebSocketManager" where
  "message_handler c raw s = s"

text \<open>
  One round of the interval callback, for one socket of \<open>wss.clients\<close>, and for all of them:
  \<^verbatim>\<open>
  if (client.isAlive === false) { return client.terminate(); }
  client.isAlive = false;
  client.ping();
  \<close>
\<close>

definition heartbeat_client :: "ws_id \<Rightarrow> WebSocketManager \<Rightarrow> WebSocketManager" where
  "heartbeat_client c s =
     (if ws_isAlive (sockets s c) = Some False then terminate c s
      else ping c (modify c (\<lambda>w. w\<lparr>ws_isAlive := Some False\<rparr>) s))"

definition heartbeat :: "WebSocketManager \<Rightarrow> WebSocketManager" where
  "heartbeat s = fold heartbeat_client (wss_clients s) s"

text \<open>
  The same callback with the timing of the library: the call of \<open>terminate\<close> only starts
  the closing of the socket, and the sockets terminated in a round close, and emit
  \<open>close\<close>, when the callback has returned.
\<close>

definition terminate_call :: "ws_id \<Rightarrow> WebSocketManager \<Rightarrow> WebSocketManager" where
  "terminate_call c s = modify c (\<lambda>w. w\<lparr>readyState := CLOSING\<rparr>) s"

definition sweep_client :: "ws_id \<Rightarrow> WebSocketManager \<Rightarrow> WebSocketManager" where
  "sweep_client c s =
     (if ws_isAlive (sockets s c) = Some False then terminate_call c s
      else ping c (modify c (\<lambda>w. w\<lparr>ws_isAlive := Some False\<rparr>) s))"

definition sweep_then_close :: "WebSocketManager \<Rightarrow> WebSocketManager" where
  "sweep_then_close s =
     fold emit_close (filter (\<lambda>c. ws_isAlive (sockets s c) = Some False) (wss_clients s))
       (fold sweep_client (wss_clients s) s)"

section \<open>Runs of the manager\<close>

text \<open>
  What can happen to the manager, one thing at a time: a socket is accepted and handed to
  the connection listener; a pong, a message or the peer's close frame arrives on a socket
  of the server; a socket closes; the interval fires; a router method is called. When the
  connection listener throws, the accepted socket stays as the server made it: open, in the
  server's set, without listeners. Nothing catches the exception, so a run that goes on
  from there describes a process that has outlived it.
\<close>

datatype action =
    Connection string IncomingMessage
  | Pong ws_id
  | Message ws_id string
  | PeerClosing ws_id
  | Close ws_id
  | Heartbeat
  | BroadcastToUser string WebSocketEvent
  | BroadcastToAll WebSocketEvent
  | BroadcastToAdmins WebSocketEvent
  | BroadcastToResourceUsers "string list" WebSocketEvent

fun step :: "library \<Rightarrow> action \<Rightarrow> WebSocketManager \<Rightarrow> WebSocketManager" where
  "step lib (Connection now req) s =
     (case connection_handler lib now (next_ws s) req (accept s) of
        Inl e \<Rightarrow> accept s
      | Inr s' \<Rightarrow> s')"
| "step lib (Pong c) s =
     (if c \<in> set (wss_clients s) \<and> listening (sockets s c) then pong_handler c s else s)"
| "step lib (Message c raw) s =
     (if c \<in> set (wss_clients s) \<and> listening (sockets s c) then message_handler c raw s else s)"
| "step lib (PeerClosing c) s =
     (if c \<in> set (wss_clients s) then modify c (\<lambda>w. w\<lparr>readyState := CLOSING\<rparr>) s else s)"
| "step lib (Close c) s = (if c \<in> set (wss_clients s) then emit_close c s else s)"
| "step lib Heartbeat s = heartbeat s"
| "step lib (BroadcastToUser uid event) s = broadcastToUser uid event s"
| "step lib (BroadcastToAll event) s = broadcastToAll event s"
| "step lib (BroadcastToAdmins event) s = broadcastToAdmins event s"
| "step lib (BroadcastToResourceUsers userIds event) s = broadcastToResourceUsers userIds event s"

definition run :: "library \<Rightarrow> action list \<Rightarrow> WebSocketManager \<Rightarrow> WebSocketManager" where
  "run lib acts s = fold (step lib) acts s"

section \<open>Delivery, as a set of recipients\<close>

text \<open>
  One frame of \<open>event\<close> written to every socket of \<open>A\<close> that is open, and nothing else
  changed: what a router method amounts to, for the set of recipients it resolves.
\<close>

definition deliver :: "ws_id set \<Rightarrow> WebSocketEvent \<Rightarrow> WebSocketManager \<Rightarrow> WebSocketManager" where
  "deliver A event s =
     s\<lparr>sockets := (\<lambda>c. if c \<in> A \<and> readyState (sockets s c) = OPEN
                         then (sockets s c)\<lparr>sent := sent (sockets s c) @ [JSON_stringify event]\<rparr>
                         else sockets s c)\<rparr>"

text \<open>The connections with an elevated role, as \<open>broadcastToAdmins\<close> tests it.\<close>

definition elevated :: "WebSocketManager \<Rightarrow> ws_id set" where
  "elevated s = {c. ws_role (sockets s c) = Some ''admin'' \<or> ws_role (sockets s c) = Some ''super_admin''}"

section \<open>What holds along a run\<close>

text \<open>
  The invariant of the manager and the server together: the registry's own invariant; the
  server's set has each socket once, and only sockets that have been accepted; a registered
  connection has been accepted, carries the subject-id it is registered under, and has its
  listeners; and, unless that subject-id is empty, it is still in the server's set.
\<close>

definition manager_inv :: "WebSocketManager \<Rightarrow> bool" where
  "manager_inv s \<longleftrightarrow>
     registry_inv s \<and>
     distinct (wss_clients s) \<and>
     (\<forall>c \<in> set (wss_clients s). c < next_ws s) \<and>
     (\<forall>entry \<in> set (clients s). \<forall>c \<in> set (snd entry).
        c < next_ws s \<and> ws_userId (sockets s c) = Some (fst entry) \<and> listening (sockets s c) \<and>
        (fst entry \<noteq> [] \<longrightarrow> c \<in> set (wss_clients s)))"

text \<open>
  A connection is gone when its socket has closed, the server has dropped it and the
  registry holds it under no subject. A connection is followed along a run from a state of
  the invariant in which it has been accepted, its subject-id is not the empty string, and
  it is gone or still in the server's set.
\<close>

definition gone :: "WebSocketManager \<Rightarrow> ws_id \<Rightarrow> bool" where
  "gone s c \<longleftrightarrow>
     readyState (sockets s c) = CLOSED \<and> c \<notin> set (wss_clients s) \<and> (\<forall>uid. \<not> registered s uid c)"

definition followed :: "WebSocketManager \<Rightarrow> ws_id \<Rightarrow> bool" where
  "followed s c \<longleftrightarrow>
     manager_inv s \<and> c < next_ws s \<and> ws_userId (sockets s c) \<noteq> Some [] \<and>
     (gone s c \<or> c \<in> set (wss_clients s))"

text \<open>A connection that the next round of the heartbeat closes, if it is not gone already.\<close>

definition doomed :: "WebSocketManager \<Rightarrow> ws_id \<Rightarrow> bool" where
  "doomed s c \<longleftrightarrow> gone s c \<or> ws_isAlive (sockets s c) = Some False"

section \<open>The event types of the specification\<close>

text \<open>
  The closed enumeration of event types in the words of the specification, and the member
  each literal of \<open>WebSocketEventType\<close> stands for. The specification lists a
  connection acknowledgement; \<open>WebSocketEventType\<close> has no literal for it.
\<close>

datatype spec_event_type =
    Connection_acknowledgement
  | Device_online
  | Device_offline
  | Device_error
  | Lamp_toggled
  | Lamp_brightness_changed
  | Permission_granted
  | Permission_revoked
  | User_created
  | User_updated
  | User_deleted
  | Alert_created
  | Alert_resolved
  | Maintenance_mode_changed
  | Config_updated

fun spec_member :: "WebSocketEventType \<Rightarrow> spec_event_type" where
  "spec_member DeviceOnline = Device_online"
| "spec_member DeviceOffline = Device_offline"
| "spec_member DeviceError = Device_error"
| "spec_member LampToggled = Lamp_toggled"
| "spec_member LampBrightnessChanged = Lamp_brightness_changed"
| "spec_member PermissionGranted = Permission_granted"
| "spec_member PermissionRevoked = Permission_revoked"
| "spec_member UserCreated = User_created"
| "spec_member UserUpdated = User_updated"
| "spec_member UserDeleted = User_deleted"
| "spec_member AlertCreated = Alert_created"
| "spec_member AlertResolved = Alert_resolved"
| "spec_member SystemMaintenanceMode = Maintenance_mode_changed"
| "spec_member SystemConfigUpdated = Config_updated"

section \<open>Sample data\<close>

text \<open>
  A verifier that knows three tokens (a user, an administrator, and an identity with an
  empty subject-id) and rejects every other one, a constructor of URLs, a few requests, and
  states reached from the initial one.
\<close>

definition sample_verify :: "string \<Rightarrow> jwt_error + JWTPayload" where
  "sample_verify token =
     (if token = ''token-u1'' then
        Inr \<lparr> userId = ''u1'', username = ''alice'', email = ''alice@example.org'', role = ''user'' \<rparr>
      else if token = ''token-a1'' then
        Inr \<lparr> userId = ''a1'', username = ''root'', email = ''root@example.org'', role = ''admin'' \<rparr>
      else if token = ''token-anon'' then
        Inr \<lparr> userId = [], username = ''anon'', email = ''anon@example.org'', role = ''viewer'' \<rparr>
      else Inl JsonWebTokenError)"

text \<open>
  A constructor that parses the targets \<open>/\<close> and \<open>/?token=...\<close> and throws on every
  other input, as the constructor of the platform does on \<open>//\<close>.
\<close>

definition sample_URL :: "string \<Rightarrow> string \<Rightarrow> TypeError + (string \<times> string) list" where
  "sample_URL input base =
     (if take 8 input = ''/?token='' then Inr [(''token'', drop 8 input)]
      else if input = ''/'' then Inr []
      else Inl ERR_INVALID_URL)"

definition sample_lib :: library where
  "sample_lib = \<lparr> jwt_verify = sample_verify, new_URL = sample_URL \<rparr>"

definition query_request :: "string \<Rightarrow> IncomingMessage" where
  "query_request token =
     \<lparr> url = Some (''/?token='' @ token), host = Some ''localhost:3000'', authorization = None \<rparr>"

definition bare_request :: IncomingMessage where
  "bare_request = \<lparr> url = Some ''/'', host = Some ''localhost:3000'', authorization = None \<rparr>"

definition unparsable_request :: IncomingMessage where
  "unparsable_request = \<lparr> url = Some ''//'', host = Some ''localhost:3000'', authorization = None \<rparr>"

definition two_credentials :: IncomingMessage where
  "two_credentials =
     \<lparr> url = Some ''/?token=token-u1'', host = Some ''localhost:3000'',
       authorization = Some ''Bearer token-a1'' \<rparr>"

definition both_credentials :: IncomingMessage where
  "both_credentials =
     \<lparr> url = Some ''/?token='', host = Some ''localhost:3000'',
       authorization = Some ''Bearer token-u1'' \<rparr>"

definition two_tabs :: WebSocketManager where
  "two_tabs = run sample_lib
     [Connection ''t1'' (query_request ''token-u1''), Connection ''t2'' (query_request ''token-u1'')] initial"

definition half_closed_tabs :: WebSocketManager where
  "half_closed_tabs = step sample_lib (PeerClosing 1) two_tabs"

definition mixed_roles :: WebSocketManager where
  "mixed_roles = run sample_lib
     [Connection ''t1'' (query_request ''token-a1''), Connection ''t2'' (query_request ''token-u1'')] initial"

definition admin_closing :: WebSocketManager where
  "admin_closing = run sample_lib
     [Connection ''t1'' (query_request ''token-a1''), PeerClosing 0] initial"

definition anonymous_request :: IncomingMessage where
  "anonymous_request = query_request ''token-anon''"

text \<open>
  Two rounds of the heartbeat: on the two tabs of \<open>u1\<close>, of which the second answers the
  probe; on an administrator and a user who both stay silent; on a lone connection whose
  subject-id is the empty string.
\<close>

definition silent_and_answering :: WebSocketManager where
  "silent_and_answering = run sample_lib [Heartbeat, Pong 1, Heartbeat] two_tabs"

definition all_silent :: WebSocketManager where
  "all_silent = run sample_lib [Heartbeat, Heartbeat] mixed_roles"

definition anonymous_silent :: WebSocketManager where
  "anonymous_silent = run sample_lib [Connection ''t1'' anonymous_request, Heartbeat, Heartbeat] initial"

definition untargeted :: WebSocketEvent where
  "untargeted = createEvent ''t3'' PermissionGranted (JObject [(''resourceType'', JString ''lamp'')]) None"

section \<open>Removal is idempotent\<close>

lemma Set_delete_idem: "Set_delete (Set_delete xs x) x = Set_delete xs x"
  by (simp add: Set_delete_def)

text \<open>
  C8: applying the removal of the \<open>close\<close> listener twice to the same connection gives the
  same manager state, registry included, as applying it once; the removal is a total
  function of the state, so the second application raises nothing.
\<close>

theorem close_handler_idempotent:
  "close_handler c (close_handler c s) = close_handler c s"
proof (cases "ws_userId (sockets s c)")
  case None
  then show ?thesis by (simp add: close_handler_def)
next
  case (Some uid)
  show ?thesis
  proof (cases "uid = []")
    case True
    with Some show ?thesis by (simp add: close_handler_def)
  next
    case nonempty: False
    show ?thesis
    proof (cases "map_of (clients s) uid")
      case None
      with Some nonempty show ?thesis by (simp add: close_handler_def)
    next
      case (Some userClients)
      show ?thesis
      proof (cases "Set_delete userClients c = []")
        case True
        with Some \<open>ws_userId (sockets s c) = Some uid\<close> nonempty show ?thesis
          by (simp add: close_handler_def AList.delete_conv')
      next
        case False
        with Some \<open>ws_userId (sockets s c) = Some uid\<close> nonempty show ?thesis
          by (simp add: close_handler_def AList.update_conv' Set_delete_idem)
      qed
    qed
  qed
qed

section \<open>The store and delivery\<close>

lemma modify_simps [simp]:
  "clients (modify c f s) = clients s"
  "wss_clients (modify c f s) = wss_clients s"
  "next_ws (modify c f s) = next_ws s"
  "sockets (modify c f s) c' = (if c' = c then f (sockets s c) else sockets s c')"
  by (simp_all add: modify_def)

lemma manager_eqI:
  "sockets s = sockets s' \<Longrightarrow> wss_clients s = wss_clients s' \<Longrightarrow> clients s = clients s' \<Longrightarrow>
   next_ws s = next_ws s' \<Longrightarrow> (s::WebSocketManager) = s'"
  by simp

lemma deliver_simps [simp]:
  "clients (deliver A event s) = clients s"
  "wss_clients (deliver A event s) = wss_clients s"
  "next_ws (deliver A event s) = next_ws s"
  "sockets (deliver A event s) c =
     (if c \<in> A \<and> readyState (sockets s c) = OPEN
      then (sockets s c)\<lparr>sent := sent (sockets s c) @ [JSON_stringify event]\<rparr>
      else sockets s c)"
  by (simp_all add: deliver_def)

lemma deliver_empty [simp]: "deliver {} event s = s"
  by (simp add: deliver_def)

lemma sendToClient_deliver: "sendToClient c event s = deliver {c} event s"
  by (rule manager_eqI) (auto simp: sendToClient_def fun_eq_iff)

lemma deliver_deliver:
  "A \<inter> B = {} \<Longrightarrow> deliver B event (deliver A event s) = deliver (A \<union> B) event s"
  by (rule manager_eqI) (auto simp: fun_eq_iff)

lemma fold_sendToClient:
  "distinct cs \<Longrightarrow> fold (\<lambda>c. sendToClient c event) cs s = deliver (set cs) event s"
proof (induction cs arbitrary: s)
  case Nil
  then show ?case by simp
next
  case (Cons c cs)
  then show ?case
    by (simp add: sendToClient_deliver deliver_deliver)
qed

lemma fold_fold_sendToClient:
  "distinct (concat (map snd m)) \<Longrightarrow>
   fold (\<lambda>entry. fold (\<lambda>c. sendToClient c event) (snd entry)) m s =
   deliver (set (concat (map snd m))) event s"
proof (induction m arbitrary: s)
  case Nil
  then show ?case by simp
next
  case (Cons entry m)
  then show ?case
    by (simp add: fold_sendToClient deliver_deliver)
qed

section \<open>The registry invariant\<close>

lemma registered_iff:
  "registered s uid c \<longleftrightarrow> (\<exists>cs. map_of (clients s) uid = Some cs \<and> c \<in> set cs)"
  by (simp add: registered_def split: option.splits)

lemma registry_inv_map:
  "registry_inv s \<longleftrightarrow>
     distinct (map fst (clients s)) \<and>
     (\<forall>uid cs. map_of (clients s) uid = Some cs \<longrightarrow> cs \<noteq> [] \<and> distinct cs) \<and>
     (\<forall>uid uid' c. registered s uid c \<and> registered s uid' c \<longrightarrow> uid = uid')"
proof (cases "distinct (map fst (clients s))")
  case False
  then show ?thesis by (simp add: registry_inv_def)
next
  case True
  then have mem: "map_of (clients s) k = Some cs \<longleftrightarrow> (k, cs) \<in> set (clients s)" for k cs
    by simp
  have sets: "(\<forall>entry \<in> set (clients s). snd entry \<noteq> [] \<and> distinct (snd entry)) \<longleftrightarrow>
              (\<forall>uid cs. (uid, cs) \<in> set (clients s) \<longrightarrow> cs \<noteq> [] \<and> distinct cs)"
    by auto
  have disj: "(\<forall>entry \<in> set (clients s). \<forall>entry' \<in> set (clients s).
                 fst entry \<noteq> fst entry' \<longrightarrow> set (snd entry) \<inter> set (snd entry') = {}) \<longleftrightarrow>
              (\<forall>uid uid' c. (\<exists>cs. (uid, cs) \<in> set (clients s) \<and> c \<in> set cs) \<and>
                 (\<exists>cs. (uid', cs) \<in> set (clients s) \<and> c \<in> set cs) \<longrightarrow> uid = uid')"
    (is "?L \<longleftrightarrow> ?R")
  proof
    assume l: ?L
    show ?R
    proof (intro allI impI)
      fix uid uid' c
      assume "(\<exists>cs. (uid, cs) \<in> set (clients s) \<and> c \<in> set cs) \<and>
              (\<exists>cs. (uid', cs) \<in> set (clients s) \<and> c \<in> set cs)"
      then obtain cs cs' where a: "(uid, cs) \<in> set (clients s)" "c \<in> set cs"
        and b: "(uid', cs') \<in> set (clients s)" "c \<in> set cs'" by blast
      show "uid = uid'"
      proof (rule ccontr)
        assume "uid \<noteq> uid'"
        with l a(1) b(1) have "set cs \<inter> set cs' = {}" by fastforce
        with a(2) b(2) show False by blast
      qed
    qed
  next
    assume r: ?R
    show ?L
    proof (intro ballI impI)
      fix entry entry'
      assume e: "entry \<in> set (clients s)" "entry' \<in> set (clients s)" "fst entry \<noteq> fst entry'"
      show "set (snd entry) \<inter> set (snd entry') = {}"
      proof (rule ccontr)
        assume "set (snd entry) \<inter> set (snd entry') \<noteq> {}"
        then obtain c where c: "c \<in> set (snd entry)" "c \<in> set (snd entry')" by blast
        from e(1) have "(fst entry, snd entry) \<in> set (clients s)" by simp
        moreover from e(2) have "(fst entry', snd entry') \<in> set (clients s)" by simp
        ultimately have "fst entry = fst entry'" using r c by blast
        with e(3) show False by simp
      qed
    qed
  qed
  show ?thesis
    unfolding registry_inv_def registered_iff mem sets disj using True by simp
qed

lemma registry_inv_distinct_concat:
  assumes "registry_inv s"
  shows "distinct (concat (map snd (clients s)))"
proof -
  have "distinct (map fst m) \<Longrightarrow> (\<forall>entry \<in> set m. distinct (snd entry)) \<Longrightarrow>
        (\<forall>entry \<in> set m. \<forall>entry' \<in> set m. fst entry \<noteq> fst entry' \<longrightarrow> set (snd entry) \<inter> set (snd entry') = {}) \<Longrightarrow>
        distinct (concat (map snd m))" for m :: "(string \<times> ws_id list) list"
  proof (induction m)
    case Nil
    then show ?case by simp
  next
    case (Cons entry m)
    have "set (snd entry) \<inter> set (snd entry') = {}" if "entry' \<in> set m" for entry'
    proof -
      from Cons.prems(1) that have "fst entry \<noteq> fst entry'" by auto
      with Cons.prems(3) that show ?thesis by simp
    qed
    then have "set (snd entry) \<inter> set (concat (map snd m)) = {}" by auto
    with Cons show ?case by simp
  qed
  with assms show ?thesis by (simp add: registry_inv_def)
qed

lemma set_concat_registered:
  assumes "distinct (map fst (clients s))"
  shows "c \<in> set (concat (map snd (clients s))) \<longleftrightarrow> (\<exists>uid. registered s uid c)"
proof -
  from assms have mem: "map_of (clients s) k = Some cs \<longleftrightarrow> (k, cs) \<in> set (clients s)" for k cs
    by simp
  show ?thesis unfolding registered_iff mem by (simp, safe) force+
qed

section \<open>Sample states\<close>

lemmas eval_defs = run_def connection_handler_def parse_url_def accept_def extract_token_def
  verifyToken_def sample_lib_def sample_URL_def sample_verify_def query_request_def initial_def
  new_socket_def register_def Set_add_def
  sendToClient_def modify_def ws_close_def welcomeMessage_def JSON_stringify_def

lemma two_tabs_clients: "clients two_tabs = [(''u1'', [0, 1])]"
  by (simp add: two_tabs_def eval_defs)

lemma two_tabs_wss: "wss_clients two_tabs = [0, 1]" "next_ws two_tabs = 2"
  by (simp_all add: two_tabs_def eval_defs)

lemma two_tabs_sockets: 
  "sockets two_tabs 0 = \<lparr> ws_userId = Some ''u1'', ws_username = Some ''alice'', ws_role = Some ''user'', ws_isAlive = Some True,
     readyState = OPEN, listening = True, sent = [JSON_stringify (welcomeMessage ''t1'')], pings = 0, closeFrame = None \<rparr>"
  by (simp add: two_tabs_def eval_defs)

section \<open>Counting subjects\<close>

lemma length_le_concat:
  "\<forall>entry \<in> set m. snd entry \<noteq> [] \<Longrightarrow> length m \<le> length (concat (map snd m))"
proof (induction m)
  case Nil
  then show ?case by simp
next
  case (Cons entry m)
  then have "1 \<le> length (snd entry)" by (cases "snd entry") simp_all
  with Cons show ?case by simp
qed

lemma length_less_concat:
  "\<forall>entry \<in> set m. snd entry \<noteq> [] \<Longrightarrow> entry \<in> set m \<Longrightarrow> 2 \<le> length (snd entry) \<Longrightarrow>
   length m < length (concat (map snd m))"
proof (induction m)
  case Nil
  then show ?case by simp
next
  case (Cons e m)
  from Cons.prems(1) have rest: "length m \<le> length (concat (map snd m))"
    by (simp add: length_le_concat)
  from Cons.prems(1) have one: "1 \<le> length (snd e)" by (cases "snd e") simp_all
  show ?case
  proof (cases "entry = e")
    case True
    with Cons.prems(3) rest show ?thesis by simp
  next
    case False
    with Cons have "length m < length (concat (map snd m))" by simp
    with one show ?thesis by simp
  qed
qed

lemma subjects_are_keys:
  assumes "registry_inv s"
  shows "{uid. \<exists>c. registered s uid c} = set (getConnectedUserIds s)"
proof -
  from assms have d: "distinct (map fst (clients s))"
    and ne: "\<And>uid cs. map_of (clients s) uid = Some cs \<Longrightarrow> cs \<noteq> []"
    by (simp_all add: registry_inv_map)
  have "(\<exists>c. registered s uid c) \<longleftrightarrow> uid \<in> fst ` set (clients s)" for uid
  proof
    assume "\<exists>c. registered s uid c"
    then obtain cs where "map_of (clients s) uid = Some cs" by (auto simp: registered_iff)
    then show "uid \<in> fst ` set (clients s)" by (metis map_of_eq_None_iff option.distinct(1))
  next
    assume "uid \<in> fst ` set (clients s)"
    then obtain cs where cs: "map_of (clients s) uid = Some cs"
      by (metis map_of_eq_None_iff not_Some_eq)
    with ne have "cs \<noteq> []" by simp
    then obtain c where "c \<in> set cs" by (cases cs) auto
    with cs show "\<exists>c. registered s uid c" by (auto simp: registered_iff)
  qed
  then show ?thesis by (auto simp: getConnectedUserIds_def)
qed

text \<open>
  C10: \<open>getConnectedCount\<close> is the size of the \<open>clients\<close> map. On a registry that
  satisfies its invariant this is the number of distinct subject-ids that hold at least one
  registered connection and the length of \<open>getConnectedUserIds\<close>; it never exceeds the
  number of registered connections, and it is strictly less as soon as one subject holds
  two connections.
\<close>

theorem getConnectedCount_counts_subjects:
  assumes "registry_inv s"
  shows "getConnectedCount s = card {uid. \<exists>c. registered s uid c} \<and>
         getConnectedCount s = length (getConnectedUserIds s) \<and>
         getConnectedCount s \<le> connectionTotal s \<and>
         ((\<exists>uid c c'. registered s uid c \<and> registered s uid c' \<and> c \<noteq> c') \<longrightarrow>
            getConnectedCount s < connectionTotal s)"
proof (intro conjI impI)
  from assms have d: "distinct (map fst (clients s))" by (simp add: registry_inv_def)
  have ne: "\<forall>entry \<in> set (clients s). snd entry \<noteq> []"
    using assms by (simp add: registry_inv_def)
  show "getConnectedCount s = card {uid. \<exists>c. registered s uid c}"
    using distinct_card[OF d]
    by (simp add: subjects_are_keys[OF assms] getConnectedUserIds_def getConnectedCount_def)
  show "getConnectedCount s = length (getConnectedUserIds s)"
    by (simp add: getConnectedCount_def getConnectedUserIds_def)
  show "getConnectedCount s \<le> connectionTotal s"
    using ne by (simp add: getConnectedCount_def connectionTotal_def length_le_concat)
  assume "\<exists>uid c c'. registered s uid c \<and> registered s uid c' \<and> c \<noteq> c'"
  then obtain uid c c' cs where cs: "map_of (clients s) uid = Some cs"
    and in_cs: "c \<in> set cs" "c' \<in> set cs" "c \<noteq> c'"
    by (auto simp: registered_iff)
  from cs have entry: "(uid, cs) \<in> set (clients s)" by (rule map_of_SomeD)
  have "2 \<le> length cs"
  proof (cases cs)
    case Nil
    with in_cs show ?thesis by simp
  next
    case (Cons x xs)
    with in_cs have "xs \<noteq> []" by auto
    with Cons show ?thesis by (cases xs) simp_all
  qed
  with ne entry show "getConnectedCount s < connectionTotal s"
    unfolding getConnectedCount_def connectionTotal_def
    by (intro length_less_concat[where entry = "(uid, cs)"]) simp_all
qed

theorem getConnectedCount_counts_subjects_witness:
  "registry_inv two_tabs \<and> getConnectedUserIds two_tabs = [''u1''] \<and> getConnectedCount two_tabs = 1 \<and>
   connectionTotal two_tabs = 2 \<and> card {uid. \<exists>c. registered two_tabs uid c} = 1 \<and>
   getConnectedCount two_tabs < connectionTotal two_tabs"
proof -
  have inv: "registry_inv two_tabs"
    by (simp add: registry_inv_def two_tabs_clients)
  have two: "registered two_tabs ''u1'' 0 \<and> registered two_tabs ''u1'' 1 \<and> (0::nat) \<noteq> 1"
    by (simp add: registered_def two_tabs_clients)
  from getConnectedCount_counts_subjects[OF inv] two show ?thesis
    by (simp add: getConnectedCount_def getConnectedUserIds_def connectionTotal_def two_tabs_clients inv)
qed

section \<open>Routing to a subject\<close>

lemma broadcastToUser_deliver:
  assumes "registry_inv s"
  shows "broadcastToUser uid event s = deliver {c. registered s uid c} event s"
proof (cases "map_of (clients s) uid")
  case None
  then have "{c. registered s uid c} = {}" by (simp add: registered_def)
  with None show ?thesis by (simp add: broadcastToUser_def)
next
  case (Some cs)
  with assms have "distinct cs" by (simp add: registry_inv_map)
  moreover from Some have "{c. registered s uid c} = set cs" by (simp add: registered_def)
  ultimately show ?thesis using Some by (simp add: broadcastToUser_def fold_sendToClient)
qed

lemma userId_on_the_wire:
  "field ''userId'' (JSON_stringify event) = map_option JString (ev_userId event)"
  by (simp add: JSON_stringify_def split: option.splits)

text \<open>
  C1, as amended: \<open>broadcastToUser\<close> on a registry that satisfies its invariant writes
  exactly one frame, the serialized event, to every connection registered under the
  subject whose socket is open, and nothing to any other connection; it changes nothing
  else, and nothing at all when the subject has no registered connection. The frame's
  \<open>userId\<close> is the event's own: the subject when the event was created for it, absent
  when the event has none.
\<close>

theorem broadcastToUser_delivery:
  assumes "registry_inv s"
  shows "clients (broadcastToUser uid event s) = clients s \<and>
         wss_clients (broadcastToUser uid event s) = wss_clients s \<and>
         (\<forall>c. sockets (broadcastToUser uid event s) c =
              (sockets s c)\<lparr>sent := sent (sockets s c) @
                 (if registered s uid c \<and> readyState (sockets s c) = OPEN
                  then [JSON_stringify event] else [])\<rparr>) \<and>
         field ''userId'' (JSON_stringify event) = map_option JString (ev_userId event) \<and>
         ((\<forall>c. \<not> registered s uid c) \<longrightarrow> broadcastToUser uid event s = s)"
proof (intro conjI allI impI)
  note d = broadcastToUser_deliver[OF assms]
  show "clients (broadcastToUser uid event s) = clients s" by (simp add: d)
  show "wss_clients (broadcastToUser uid event s) = wss_clients s" by (simp add: d)
  show "sockets (broadcastToUser uid event s) c =
        (sockets s c)\<lparr>sent := sent (sockets s c) @
           (if registered s uid c \<and> readyState (sockets s c) = OPEN
            then [JSON_stringify event] else [])\<rparr>" for c
    by (simp add: d)
  show "field ''userId'' (JSON_stringify event) = map_option JString (ev_userId event)"
    by (rule userId_on_the_wire)
  assume "\<forall>c. \<not> registered s uid c"
  then have "{c. registered s uid c} = {}" by simp
  then show "broadcastToUser uid event s = s" by (simp add: d)
qed

lemma half_closed_tabs_clients: "clients half_closed_tabs = [(''u1'', [0, 1])]"
  by (simp add: half_closed_tabs_def two_tabs_clients two_tabs_wss)

theorem broadcastToUser_delivery_witness:
  "registry_inv two_tabs \<and>
   sent (sockets (broadcastToUser ''u1'' untargeted two_tabs) 1) =
     sent (sockets two_tabs 1) @ [JSON_stringify untargeted] \<and>
   clients (broadcastToUser ''u1'' untargeted two_tabs) = [(''u1'', [0, 1])] \<and>
   broadcastToUser ''u2'' untargeted two_tabs = two_tabs"
proof -
  have inv: "registry_inv two_tabs"
    by (simp add: registry_inv_def two_tabs_clients)
  have reg: "registered two_tabs ''u1'' 1 \<and> readyState (sockets two_tabs 1) = OPEN \<and>
             (\<forall>c. \<not> registered two_tabs ''u2'' c)"
    by (simp add: registered_def two_tabs_clients) (simp add: two_tabs_def eval_defs)
  from broadcastToUser_delivery[OF inv, of "''u1''" untargeted]
    broadcastToUser_delivery[OF inv, of "''u2''" untargeted] reg
  show ?thesis by (simp add: inv two_tabs_clients)
qed

text \<open>
  C1 as stated fails: of two connections registered under \<open>u1\<close>, the one whose socket is
  closing receives nothing, and the open one receives a frame without a \<open>userId\<close>, since
  the router sends the event as it is.
\<close>

theorem broadcastToUser_counterexample:
  "registered half_closed_tabs ''u1'' 0 \<and> registered half_closed_tabs ''u1'' 1 \<and>
   sent (sockets (broadcastToUser ''u1'' untargeted half_closed_tabs) 1) =
     sent (sockets half_closed_tabs 1) \<and>
   field ''userId'' (last (sent (sockets (broadcastToUser ''u1'' untargeted half_closed_tabs) 0))) = None \<and>
   field ''type'' (last (sent (sockets (broadcastToUser ''u1'' untargeted half_closed_tabs) 0))) =
     Some (JString ''permission:granted'')"
  by (simp add: registered_def broadcastToUser_def half_closed_tabs_clients)
     (simp add: half_closed_tabs_def two_tabs_def eval_defs untargeted_def createEvent_def)

section \<open>Routing to the elevated roles\<close>

lemma elevated_deliver [simp]: "elevated (deliver A event s) = elevated s"
  by (auto simp: elevated_def)

lemma sendToAdmin_deliver: "sendToAdmin c event s = deliver ({c} \<inter> elevated s) event s"
  by (simp add: sendToAdmin_def sendToClient_deliver elevated_def)

lemma fold_sendToAdmin:
  "distinct cs \<Longrightarrow> fold (\<lambda>c. sendToAdmin c event) cs s = deliver (set cs \<inter> elevated s) event s"
proof (induction cs arbitrary: s)
  case Nil
  then show ?case by simp
next
  case (Cons c cs)
  have "({c} \<inter> elevated s) \<inter> (set cs \<inter> elevated s) = {}" using Cons.prems by auto
  moreover have "({c} \<inter> elevated s) \<union> (set cs \<inter> elevated s) = set (c # cs) \<inter> elevated s"
    by auto
  ultimately show ?case using Cons
    by (simp add: sendToAdmin_deliver deliver_deliver del: Int_insert_left)
qed

lemma fold_fold_sendToAdmin:
  "distinct (concat (map snd m)) \<Longrightarrow>
   fold (\<lambda>entry. fold (\<lambda>c. sendToAdmin c event) (snd entry)) m s =
   deliver (set (concat (map snd m)) \<inter> elevated s) event s"
proof (induction m arbitrary: s)
  case Nil
  then show ?case by simp
next
  case (Cons entry m)
  have "(set (snd entry) \<inter> elevated s) \<inter> (set (concat (map snd m)) \<inter> elevated s) = {}"
    using Cons.prems by auto
  moreover have "(set (snd entry) \<inter> elevated s) \<union> (set (concat (map snd m)) \<inter> elevated s) =
                 set (concat (map snd (entry # m))) \<inter> elevated s"
    by auto
  ultimately show ?case using Cons
    by (simp add: fold_sendToAdmin deliver_deliver)
qed

lemma broadcastToAdmins_deliver:
  assumes "registry_inv s"
  shows "broadcastToAdmins event s = deliver ({c. \<exists>uid. registered s uid c} \<inter> elevated s) event s"
proof -
  from assms have "distinct (map fst (clients s))" by (simp add: registry_inv_def)
  then have "set (concat (map snd (clients s))) = {c. \<exists>uid. registered s uid c}"
    using set_concat_registered[of s] by blast
  then show ?thesis
    using fold_fold_sendToAdmin[OF registry_inv_distinct_concat[OF assms], of event s]
    by (simp add: broadcastToAdmins_def)
qed

lemma broadcastToAll_deliver:
  assumes "registry_inv s"
  shows "broadcastToAll event s = deliver {c. \<exists>uid. registered s uid c} event s"
proof -
  from assms have "distinct (map fst (clients s))" by (simp add: registry_inv_def)
  then have "set (concat (map snd (clients s))) = {c. \<exists>uid. registered s uid c}"
    using set_concat_registered[of s] by blast
  then show ?thesis
    using fold_fold_sendToClient[OF registry_inv_distinct_concat[OF assms], of event s]
    by (simp add: broadcastToAll_def)
qed

text \<open>
  C5, as amended: \<open>broadcastToAdmins\<close> on a registry that satisfies its invariant writes
  exactly one frame, the serialized event, to every registered connection whose captured
  role is \<open>admin\<close> or \<open>super_admin\<close> and whose socket is open, and nothing to any other
  connection; in particular a connection with role \<open>user\<close> or \<open>viewer\<close> receives
  nothing.
\<close>

theorem broadcastToAdmins_delivery:
  assumes "registry_inv s"
  shows "clients (broadcastToAdmins event s) = clients s \<and>
         (\<forall>c. sockets (broadcastToAdmins event s) c =
              (sockets s c)\<lparr>sent := sent (sockets s c) @
                 (if (\<exists>uid. registered s uid c) \<and>
                     (ws_role (sockets s c) = Some ''admin'' \<or> ws_role (sockets s c) = Some ''super_admin'') \<and>
                     readyState (sockets s c) = OPEN
                  then [JSON_stringify event] else [])\<rparr>) \<and>
         (\<forall>c. ws_role (sockets s c) = Some ''user'' \<or> ws_role (sockets s c) = Some ''viewer'' \<longrightarrow>
              sent (sockets (broadcastToAdmins event s) c) = sent (sockets s c))"
proof (intro conjI allI impI)
  note d = broadcastToAdmins_deliver[OF assms]
  show "clients (broadcastToAdmins event s) = clients s" by (simp add: d)
  show "sockets (broadcastToAdmins event s) c =
        (sockets s c)\<lparr>sent := sent (sockets s c) @
           (if (\<exists>uid. registered s uid c) \<and>
               (ws_role (sockets s c) = Some ''admin'' \<or> ws_role (sockets s c) = Some ''super_admin'') \<and>
               readyState (sockets s c) = OPEN
            then [JSON_stringify event] else [])\<rparr>" for c
    by (simp add: d elevated_def)
  show "sent (sockets (broadcastToAdmins event s) c) = sent (sockets s c)"
    if "ws_role (sockets s c) = Some ''user'' \<or> ws_role (sockets s c) = Some ''viewer''" for c
    using that by (auto simp: d elevated_def)
qed

lemma mixed_roles_clients: "clients mixed_roles = [(''a1'', [0]), (''u1'', [1])]"
  by (simp add: mixed_roles_def eval_defs)

theorem broadcastToAdmins_delivery_witness:
  "registry_inv mixed_roles \<and>
   sent (sockets (broadcastToAdmins untargeted mixed_roles) 0) =
     sent (sockets mixed_roles 0) @ [JSON_stringify untargeted] \<and>
   sent (sockets (broadcastToAdmins untargeted mixed_roles) 1) = sent (sockets mixed_roles 1)"
proof -
  have inv: "registry_inv mixed_roles"
    by (simp add: registry_inv_def mixed_roles_clients)
  have reg: "registered mixed_roles ''a1'' 0 \<and> ws_role (sockets mixed_roles 0) = Some ''admin'' \<and>
             readyState (sockets mixed_roles 0) = OPEN \<and> ws_role (sockets mixed_roles 1) = Some ''user''"
    by (simp add: registered_def mixed_roles_clients) (simp add: mixed_roles_def eval_defs)
  then have "\<exists>uid. registered mixed_roles uid 0" by blast
  with broadcastToAdmins_delivery[OF inv, of untargeted] reg
  show ?thesis by (simp add: inv)
qed

text \<open>
  C5 as stated fails: a registered administrator connection whose socket is closing
  receives nothing.
\<close>

theorem broadcastToAdmins_counterexample:
  "registered admin_closing ''a1'' 0 \<and> ws_role (sockets admin_closing 0) = Some ''admin'' \<and>
   sent (sockets (broadcastToAdmins untargeted admin_closing) 0) = sent (sockets admin_closing 0)"
  by (simp add: registered_def broadcastToAdmins_def sendToAdmin_def admin_closing_def eval_defs)

section \<open>Admission\<close>

lemma parse_url_authorization [simp]:
  "parse_url lib (req\<lparr>authorization := header\<rparr>) = parse_url lib req"
  by (simp add: parse_url_def)

lemma connection_handler_throws:
  assumes "parse_url lib req = Inl e"
  shows "connection_handler lib now c req s = Inl e"
  using assms by (simp add: connection_handler_def)

lemma connection_handler_rejects:
  assumes "parse_url lib req = Inr searchParams"
    and "\<not> truthy (extract_token searchParams (authorization req)) \<or>
         (\<exists>t. extract_token searchParams (authorization req) = Some t \<and> verifyToken lib t = None)"
  shows "connection_handler lib now c req s =
         Inr (ws_close 1008 (if truthy (extract_token searchParams (authorization req))
                             then ''Invalid token'' else ''Authentication required'') c s)"
  using assms by (auto simp: connection_handler_def split: option.splits)

lemma connection_handler_admits:
  assumes "parse_url lib req = Inr searchParams"
    and "extract_token searchParams (authorization req) = Some t" "t \<noteq> []"
    and "verifyToken lib t = Some payload"
  shows "connection_handler lib now c req s = Inr (admit payload now c s)"
  using assms by (simp add: connection_handler_def admit_def Let_def)

lemma connection_handler_cases:
  obtains (threw) e where "connection_handler lib now c req s = Inl e"
  | (rejected) reason where "connection_handler lib now c req s = Inr (ws_close 1008 reason c s)"
  | (admitted) payload where "connection_handler lib now c req s = Inr (admit payload now c s)"
proof (cases "parse_url lib req")
  case (Inl e)
  from connection_handler_throws[OF this] threw show ?thesis by blast
next
  case (Inr searchParams)
  show ?thesis
  proof (cases "\<not> truthy (extract_token searchParams (authorization req)) \<or>
      (\<exists>t. extract_token searchParams (authorization req) = Some t \<and> verifyToken lib t = None)")
    case True
    from connection_handler_rejects[OF Inr this] rejected show ?thesis by blast
  next
    case False
    then obtain t payload where "extract_token searchParams (authorization req) = Some t" "t \<noteq> []"
      "verifyToken lib t = Some payload"
      by (cases "extract_token searchParams (authorization req)") auto
    from connection_handler_admits[OF Inr this] admitted show ?thesis by blast
  qed
qed

text \<open>
  When the target parses, a request without a usable credential, or with one the verifier
  rejects, is closed with code 1008 and nothing is registered.
\<close>

lemma rejected_when_url_parses:
  assumes "parse_url lib req = Inr searchParams"
    and "\<not> truthy (extract_token searchParams (authorization req)) \<or>
         (\<exists>t. extract_token searchParams (authorization req) = Some t \<and> verifyToken lib t = None)"
  shows "\<exists>s'. connection_handler lib now c req s = Inr s' \<and>
           clients s' = clients s \<and> getConnectedUserIds s' = getConnectedUserIds s \<and>
           closeFrame (sockets s' c) =
             Some (1008, if truthy (extract_token searchParams (authorization req))
                         then ''Invalid token'' else ''Authentication required'') \<and>
           readyState (sockets s' c) = CLOSING \<and> sent (sockets s' c) = sent (sockets s c) \<and>
           ws_userId (sockets s' c) = ws_userId (sockets s c)"
  by (simp add: connection_handler_rejects[OF assms] ws_close_def getConnectedUserIds_def)

lemma parse_query_request:
  "parse_url sample_lib (query_request token) = Inr [(''token'', token)]"
  by (simp add: parse_url_def sample_lib_def sample_URL_def query_request_def)

lemma parse_bare_request: "parse_url sample_lib bare_request = Inr []"
  by (simp add: parse_url_def sample_lib_def sample_URL_def bare_request_def)

lemma parse_unparsable_request: "parse_url sample_lib unparsable_request = Inl ERR_INVALID_URL"
  by (simp add: parse_url_def sample_lib_def sample_URL_def unparsable_request_def)

lemma parse_two_credentials:
  "parse_url sample_lib two_credentials = Inr [(''token'', ''token-u1'')]"
  by (simp add: parse_url_def sample_lib_def sample_URL_def two_credentials_def)

lemma parse_both_credentials: "parse_url sample_lib both_credentials = Inr [(''token'', [])]"
  by (simp add: parse_url_def sample_lib_def sample_URL_def both_credentials_def)

text \<open>
  C4 at a request whose target does not parse: the constructor of the URL throws before the
  token is looked at, so the listener ends without closing the socket. The request carries
  no credential, and the socket stays open in the server's set, though unregistered.
\<close>

theorem unparsable_target_not_closed:
  "authorization unparsable_request = None \<and>
   connection_handler sample_lib ''t3'' 2 unparsable_request (accept two_tabs) = Inl ERR_INVALID_URL \<and>
   closeFrame (sockets (step sample_lib (Connection ''t3'' unparsable_request) two_tabs) 2) = None \<and>
   readyState (sockets (step sample_lib (Connection ''t3'' unparsable_request) two_tabs) 2) = OPEN \<and>
   wss_clients (step sample_lib (Connection ''t3'' unparsable_request) two_tabs) = [0, 1, 2] \<and>
   clients (step sample_lib (Connection ''t3'' unparsable_request) two_tabs) = [(''u1'', [0, 1])]"
proof -
  have threw: "connection_handler sample_lib now c unparsable_request s = Inl ERR_INVALID_URL" for now c s
    by (rule connection_handler_throws) (rule parse_unparsable_request)
  have stays: "step sample_lib (Connection ''t3'' unparsable_request) two_tabs = accept two_tabs"
    by (simp add: threw)
  have "authorization unparsable_request = None" by (simp add: unparsable_request_def)
  moreover have "closeFrame (sockets (accept two_tabs) 2) = None"
    "readyState (sockets (accept two_tabs) 2) = OPEN"
    "wss_clients (accept two_tabs) = [0, 1, 2]" "clients (accept two_tabs) = [(''u1'', [0, 1])]"
    by (simp_all add: accept_def new_socket_def two_tabs_clients two_tabs_wss)
  ultimately show ?thesis by (simp only: stays threw simp_thms)
qed

lemma extract_token_query:
  assumes "map_of searchParams ''token'' = Some t" "t \<noteq> []"
  shows "extract_token searchParams header = Some t"
  using assms by (simp add: extract_token_def)

text \<open>
  C7, as amended: when the target of the request parses and its \<open>token\<close> query parameter
  is present and not empty, that value is the credential, whatever the \<open>authorization\<close>
  header holds: the handler behaves the same for every header, and depends on the verifier
  only through its answer on that value.
\<close>

theorem query_token_precedence:
  assumes "parse_url lib req = Inr searchParams"
    and "map_of searchParams ''token'' = Some t" "t \<noteq> []"
  shows "extract_token searchParams (authorization req) = Some t \<and>
         extract_token searchParams header = Some t \<and>
         connection_handler lib now c (req\<lparr>authorization := header\<rparr>) s =
           connection_handler lib now c req s \<and>
         (\<forall>lib'. new_URL lib' = new_URL lib \<and> jwt_verify lib' t = jwt_verify lib t \<longrightarrow>
            connection_handler lib' now c req s = connection_handler lib now c req s)"
proof -
  have token: "extract_token searchParams h = Some t" for h
    using assms(2,3) by (rule extract_token_query)
  have header: "connection_handler lib now c (req\<lparr>authorization := header\<rparr>) s =
                connection_handler lib now c req s"
    using assms(1,3) by (simp add: connection_handler_def token)
  have verifier: "connection_handler lib' now c req s = connection_handler lib now c req s"
    if "new_URL lib' = new_URL lib \<and> jwt_verify lib' t = jwt_verify lib t" for lib'
  proof -
    from that assms(1) have "parse_url lib' req = Inr searchParams" by (simp add: parse_url_def)
    moreover from that have "verifyToken lib' t = verifyToken lib t" by (simp add: verifyToken_def)
    ultimately show ?thesis using assms(1,3) by (simp add: connection_handler_def token)
  qed
  from token header verifier show ?thesis by blast
qed

theorem query_token_precedence_witness:
  "parse_url sample_lib two_credentials = Inr [(''token'', ''token-u1'')] \<and>
   extract_token [(''token'', ''token-u1'')] (authorization two_credentials) = Some ''token-u1'' \<and>
   clients (step sample_lib (Connection ''t1'' two_credentials) initial) = [(''u1'', [0])]"
proof -
  have a: "map_of [(''token'', ''token-u1'')] ''token'' = Some ''token-u1''" "''token-u1'' \<noteq> []"
    by simp_all
  from query_token_precedence[OF parse_two_credentials a] show ?thesis
    by (simp add: parse_two_credentials eval_defs two_credentials_def)
qed

text \<open>
  C7 as stated fails for an empty query parameter: with \<open>?token=\<close> and a bearer header,
  the header's token is the credential, and the connection is admitted on it.
\<close>

theorem query_token_precedence_counterexample:
  "parse_url sample_lib both_credentials = Inr [(''token'', [])] \<and>
   authorization both_credentials = Some ''Bearer token-u1'' \<and>
   extract_token [(''token'', [])] (authorization both_credentials) = Some ''token-u1'' \<and>
   clients (step sample_lib (Connection ''t1'' both_credentials) initial) = [(''u1'', [0])]"
  by (simp add: parse_both_credentials eval_defs both_credentials_def)

text \<open>
  C2, as amended: a successful admission sends exactly one frame, to the new connection
  only; its type is \<open>system:config_updated\<close>, the config-updated member of the
  enumeration, and it carries no \<open>userId\<close>.
\<close>

theorem admission_acknowledged:
  assumes "parse_url lib req = Inr searchParams"
    and "extract_token searchParams (authorization req) = Some t" "t \<noteq> []"
    and "verifyToken lib t = Some payload"
  shows "sent (sockets (step lib (Connection now req) s) (next_ws s)) = [JSON_stringify (welcomeMessage now)] \<and>
         (\<forall>c. c \<noteq> next_ws s \<longrightarrow> sockets (step lib (Connection now req) s) c = sockets s c) \<and>
         ev_type (welcomeMessage now) = SystemConfigUpdated \<and>
         spec_member (ev_type (welcomeMessage now)) = Config_updated \<and>
         field ''type'' (JSON_stringify (welcomeMessage now)) = Some (JString ''system:config_updated'') \<and>
         field ''userId'' (JSON_stringify (welcomeMessage now)) = None"
proof -
  let ?c = "next_ws s"
  have admitted: "step lib (Connection now req) s = admit payload now ?c (accept s)"
    by (simp add: connection_handler_admits[OF assms])
  have "sent (sockets (accept s) ?c) = []" by (simp add: accept_def new_socket_def)
  then have one: "sent (sockets (step lib (Connection now req) s) ?c) = [JSON_stringify (welcomeMessage now)]"
    unfolding admitted by (simp add: admit_def sendToClient_def accept_def new_socket_def)
  have others: "sockets (step lib (Connection now req) s) c = sockets s c" if "c \<noteq> ?c" for c
    unfolding admitted using that by (simp add: admit_def sendToClient_def accept_def)
  have "ev_type (welcomeMessage now) = SystemConfigUpdated" by (simp add: welcomeMessage_def)
  moreover have "field ''type'' (JSON_stringify (welcomeMessage now)) = Some (JString ''system:config_updated'')"
    by (simp add: welcomeMessage_def JSON_stringify_def)
  moreover have "field ''userId'' (JSON_stringify (welcomeMessage now)) = None"
    by (simp add: welcomeMessage_def JSON_stringify_def)
  ultimately show ?thesis using one others by simp
qed

theorem admission_acknowledged_witness:
  "sent (sockets (step sample_lib (Connection ''t3'' (query_request ''token-a1'')) two_tabs) 2) =
     [JSON_stringify (welcomeMessage ''t3'')] \<and>
   sockets (step sample_lib (Connection ''t3'' (query_request ''token-a1'')) two_tabs) 0 = sockets two_tabs 0 \<and>
   sockets (step sample_lib (Connection ''t3'' (query_request ''token-a1'')) two_tabs) 1 = sockets two_tabs 1"
proof -
  have a: "extract_token [(''token'', ''token-a1'')] (authorization (query_request ''token-a1'')) = Some ''token-a1''"
    "''token-a1'' \<noteq> []"
    "verifyToken sample_lib ''token-a1'' =
       Some \<lparr> userId = ''a1'', username = ''root'', email = ''root@example.org'', role = ''admin'' \<rparr>"
    by (simp_all add: extract_token_def verifyToken_def sample_lib_def sample_verify_def)
  from admission_acknowledged[OF parse_query_request a, where now = "''t3''" and s = two_tabs]
  show ?thesis by (simp add: two_tabs_wss)
qed

text \<open>
  C2 as stated fails: the type of the frame sent on admission is the config-updated
  member, and no literal of \<open>WebSocketEventType\<close> is a connection acknowledgement.
\<close>

theorem admission_acknowledged_counterexample:
  "map (field ''type'') (sent (sockets (step sample_lib (Connection ''t1'' (query_request ''token-u1'')) initial) 0)) =
     [Some (JString (type_literal SystemConfigUpdated))] \<and>
   spec_member SystemConfigUpdated = Config_updated \<and>
   Config_updated \<noteq> Connection_acknowledgement \<and>
   Connection_acknowledgement \<notin> range spec_member"
proof -
  have "spec_member ty \<noteq> Connection_acknowledgement" for ty by (cases ty) simp_all
  then have "Connection_acknowledgement \<notin> range spec_member" by (metis rangeE)
  then show ?thesis by (simp add: eval_defs)
qed

text \<open>Which helpers put a \<open>userId\<close> on the wire.\<close>

lemma helpers_to_all_omit_userId:
  "\<exists>e. broadcastDeviceOnline now controllerId controllerName = broadcastToAll e \<and>
        field ''userId'' (JSON_stringify e) = None"
  "\<exists>e. broadcastDeviceOffline now controllerId controllerName = broadcastToAll e \<and>
        field ''userId'' (JSON_stringify e) = None"
  "\<exists>e. broadcastLampBrightnessChanged now lampId brightness = broadcastToAll e \<and>
        field ''userId'' (JSON_stringify e) = None"
  "\<exists>e. broadcastMaintenanceMode now enabled = broadcastToAll e \<and>
        field ''userId'' (JSON_stringify e) = None"
  unfolding broadcastDeviceOnline_def broadcastDeviceOffline_def broadcastLampBrightnessChanged_def
    broadcastMaintenanceMode_def
  by (rule exI, rule conjI, rule refl, simp add: userId_on_the_wire createEvent_def)+

lemma helpers_to_admins_omit_userId:
  "\<exists>e. broadcastDeviceError now controllerId err = broadcastToAdmins e \<and>
        field ''userId'' (JSON_stringify e) = None"
  "\<exists>e. broadcastUserCreated now user = broadcastToAdmins e \<and>
        field ''userId'' (JSON_stringify e) = None"
  "\<exists>e. broadcastUserDeleted now uid = broadcastToAdmins e \<and>
        field ''userId'' (JSON_stringify e) = None"
  "\<exists>e. broadcastAlertCreated now alert = broadcastToAdmins e \<and>
        field ''userId'' (JSON_stringify e) = None"
  "\<exists>e. broadcastAlertResolved now alertId = broadcastToAdmins e \<and>
        field ''userId'' (JSON_stringify e) = None"
  "\<exists>e. broadcastConfigUpdated now changes = broadcastToAdmins e \<and>
        field ''userId'' (JSON_stringify e) = None"
  unfolding broadcastDeviceError_def broadcastUserCreated_def broadcastUserDeleted_def
    broadcastAlertCreated_def broadcastAlertResolved_def broadcastConfigUpdated_def
  by (rule exI, rule conjI, rule refl, simp add: userId_on_the_wire createEvent_def)+

lemma helpers_to_user_carry_userId:
  "\<exists>e. broadcastPermissionGranted now uid resourceType resourceId accessLevel = broadcastToUser uid e \<and>
        field ''userId'' (JSON_stringify e) = Some (JString uid)"
  "\<exists>e. broadcastPermissionRevoked now uid permissionId = broadcastToUser uid e \<and>
        field ''userId'' (JSON_stringify e) = Some (JString uid)"
  "\<exists>e e'. broadcastUserUpdated now uid changes s = broadcastToUser uid e (broadcastToAdmins e' s) \<and>
        field ''userId'' (JSON_stringify e) = Some (JString uid) \<and>
        field ''userId'' (JSON_stringify e') = None"
  unfolding broadcastPermissionGranted_def broadcastPermissionRevoked_def broadcastUserUpdated_def
  by (intro exI conjI, rule refl, simp_all add: userId_on_the_wire createEvent_def)+

lemma lampToggled_carries_userId:
  "\<exists>e. broadcastLampToggled now lampId lampName isOn uid = broadcastToAll e \<and>
        field ''userId'' (JSON_stringify e) = Some (JString uid)"
  unfolding broadcastLampToggled_def
  by (rule exI, rule conjI, rule refl, simp add: userId_on_the_wire createEvent_def)

text \<open>
  C6 at \<open>broadcastLampToggled\<close>: the event is delivered with \<open>broadcastToAll\<close>, and
  the frame the administrator \<open>a1\<close> receives carries the \<open>userId\<close> \<open>u1\<close>.
\<close>

theorem lampToggled_broadcast_carries_userId:
  "map (field ''type'') (sent (sockets (broadcastLampToggled ''t3'' ''lamp-1'' ''Desk'' True ''u1'' mixed_roles) 0)) =
     [Some (JString ''system:config_updated''), Some (JString ''lamp:toggled'')] \<and>
   map (field ''userId'') (sent (sockets (broadcastLampToggled ''t3'' ''lamp-1'' ''Desk'' True ''u1'' mixed_roles) 0)) =
     [None, Some (JString ''u1'')] \<and>
   registered mixed_roles ''a1'' 0 \<and> \<not> registered mixed_roles ''u1'' 0"
  by (simp add: registered_def broadcastLampToggled_def broadcastToAll_def createEvent_def mixed_roles_clients)
     (simp add: mixed_roles_def eval_defs)

section \<open>Registration and removal\<close>

lemma map_of_register:
  "map_of (register uid c m) =
   (map_of m)(uid \<mapsto> Set_add (case map_of m uid of None \<Rightarrow> [] | Some cs \<Rightarrow> cs) c)"
proof (cases "map_of m uid")
  case None
  then show ?thesis by (simp add: register_def AList.update_conv')
next
  case (Some cs)
  then show ?thesis by (simp add: register_def AList.update_conv')
qed

lemma distinct_register: "distinct (map fst m) \<Longrightarrow> distinct (map fst (register uid c m))"
  by (cases "map_of m uid") (simp_all add: register_def AList.update_conv' AList.distinct_update)

lemma registered_register:
  "registered (s\<lparr>clients := register uid c (clients s)\<rparr>) uid' c' \<longleftrightarrow>
   registered s uid' c' \<or> (uid' = uid \<and> c' = c)"
  by (cases "map_of (clients s) uid") (auto simp: registered_def map_of_register Set_add_def)

lemma registry_inv_register:
  assumes "registry_inv s" "\<forall>uid'. \<not> registered s uid' c"
  shows "registry_inv (s\<lparr>clients := register uid c (clients s)\<rparr>)"
proof -
  let ?s = "s\<lparr>clients := register uid c (clients s)\<rparr>"
  from assms(1) have d: "distinct (map fst (clients s))"
    and sets: "\<And>u cs. map_of (clients s) u = Some cs \<Longrightarrow> cs \<noteq> [] \<and> distinct cs"
    and one: "\<And>u u' x. registered s u x \<Longrightarrow> registered s u' x \<Longrightarrow> u = u'"
    unfolding registry_inv_map by blast+
  have "distinct (map fst (clients ?s))" using d by (simp add: distinct_register)
  moreover have "cs \<noteq> [] \<and> distinct cs" if "map_of (clients ?s) u = Some cs" for u cs
  proof (cases "u = uid")
    case True
    with that have cs: "cs = Set_add (case map_of (clients s) uid of None \<Rightarrow> [] | Some cs \<Rightarrow> cs) c"
      by (simp add: map_of_register)
    show ?thesis
    proof (cases "map_of (clients s) uid")
      case None
      with cs show ?thesis by (simp add: Set_add_def)
    next
      case (Some old)
      with sets have "old \<noteq> []" "distinct old" by simp_all
      with cs Some show ?thesis by (simp add: Set_add_def)
    qed
  next
    case False
    with that sets show ?thesis by (simp add: map_of_register)
  qed
  moreover have "u = u'" if "registered ?s u x" "registered ?s u' x" for u u' x
    using that assms(2) one unfolding registered_register by blast
  ultimately show ?thesis unfolding registry_inv_map by blast
qed

lemma removeAll_empty: "removeAll x xs = [] \<longleftrightarrow> set xs \<subseteq> {x}"
  by (induction xs) auto

lemma map_of_close_handler:
  "map_of (clients (close_handler c s)) =
   (case ws_userId (sockets s c) of
      None \<Rightarrow> map_of (clients s)
    | Some uid \<Rightarrow>
        if uid = [] then map_of (clients s)
        else (case map_of (clients s) uid of
                None \<Rightarrow> map_of (clients s)
              | Some cs \<Rightarrow>
                  if removeAll c cs = [] then (map_of (clients s))(uid := None)
                  else (map_of (clients s))(uid \<mapsto> removeAll c cs)))"
  by (simp add: close_handler_def Set_delete_def Let_def AList.update_conv' AList.delete_conv'
      split: option.splits)

lemma registered_close_handler:
  "registered (close_handler c s) uid c' \<longleftrightarrow>
   registered s uid c' \<and> \<not> (c' = c \<and> ws_userId (sockets s c) = Some uid \<and> uid \<noteq> [])"
proof (cases "ws_userId (sockets s c)")
  case None
  then show ?thesis by (simp add: registered_def map_of_close_handler)
next
  case (Some u)
  show ?thesis
  proof (cases "u = [] \<or> map_of (clients s) u = None")
    case True
    with Some show ?thesis by (auto simp: registered_def map_of_close_handler)
  next
    case False
    then obtain cs where cs: "map_of (clients s) u = Some cs" and u: "u \<noteq> []" by auto
    show ?thesis
    proof (cases "uid = u")
      case True
      with Some cs u show ?thesis
        by (auto simp: registered_def map_of_close_handler removeAll_empty)
    next
      case False
      with Some cs u show ?thesis
        by (simp add: registered_def map_of_close_handler)
    qed
  qed
qed

lemma sockets_close_handler [simp]:
  "sockets (close_handler c s) = sockets s"
  "wss_clients (close_handler c s) = wss_clients s"
  "next_ws (close_handler c s) = next_ws s"
  by (simp_all add: close_handler_def Let_def split: option.splits)

lemma distinct_keys_close_handler:
  "distinct (map fst (clients s)) \<Longrightarrow> distinct (map fst (clients (close_handler c s)))"
  by (simp add: close_handler_def Let_def AList.distinct_update AList.distinct_delete
      split: option.splits)

lemma registry_inv_close_handler:
  assumes "registry_inv s"
  shows "registry_inv (close_handler c s)"
proof -
  let ?s = "close_handler c s"
  from assms have d: "distinct (map fst (clients s))"
    and sets: "\<And>u cs. map_of (clients s) u = Some cs \<Longrightarrow> cs \<noteq> [] \<and> distinct cs"
    and one: "\<And>u u' x. registered s u x \<Longrightarrow> registered s u' x \<Longrightarrow> u = u'"
    unfolding registry_inv_map by blast+
  have "distinct (map fst (clients ?s))"
    using d by (rule distinct_keys_close_handler)
  moreover have "cs \<noteq> [] \<and> distinct cs" if "map_of (clients ?s) u = Some cs" for u cs
  proof (cases "map_of (clients s) u")
    case None
    with that show ?thesis
      by (simp add: map_of_close_handler split: option.splits if_splits)
  next
    case (Some old)
    with sets have old: "old \<noteq> []" "distinct old" by simp_all
    from that Some have "cs = old \<or> (cs = removeAll c old \<and> removeAll c old \<noteq> [])"
      by (auto simp: map_of_close_handler split: option.splits if_splits)
    with old show ?thesis by (auto simp: distinct_removeAll)
  qed
  moreover have "u = u'" if "registered ?s u x" "registered ?s u' x" for u u' x
    using that one unfolding registered_close_handler by blast
  ultimately show ?thesis unfolding registry_inv_map by blast
qed

lemma registry_inv_keys:
  assumes "registry_inv s"
  shows "uid \<in> set (getConnectedUserIds s) \<longleftrightarrow> (\<exists>c. registered s uid c)"
  using subjects_are_keys[OF assms] by blast

lemma registry_inv_cong: "clients s' = clients s \<Longrightarrow> registry_inv s' = registry_inv s"
  by (simp add: registry_inv_def)

lemma clients_sendToClient [simp]: "clients (sendToClient c event s) = clients s"
  by (simp add: sendToClient_def)

lemma clients_ws_close [simp]: "clients (ws_close code reason c s) = clients s"
  by (simp add: ws_close_def)

lemma clients_admit: "clients (admit payload now c s) = register (userId payload) c (clients s)"
  by (simp add: admit_def)

lemma registry_inv_connection_handler:
  assumes "registry_inv s" "\<forall>uid. \<not> registered s uid c"
    and "connection_handler lib now c req s = Inr s'"
  shows "registry_inv s'"
proof (cases rule: connection_handler_cases[of lib now c req s])
  case (threw e)
  with assms(3) show ?thesis by simp
next
  case (rejected reason)
  with assms(3) have "clients s' = clients s" by auto
  from registry_inv_cong[OF this] assms(1) show ?thesis by simp
next
  case (admitted payload)
  with assms(3) have "clients s' = clients (s\<lparr>clients := register (userId payload) c (clients s)\<rparr>)"
    by (auto simp: clients_admit)
  from registry_inv_cong[OF this] registry_inv_register[OF assms(1,2), of "userId payload"]
  show ?thesis by simp
qed

section \<open>The invariant along a run\<close>

lemma manager_inv_iff:
  "manager_inv s \<longleftrightarrow>
     registry_inv s \<and> distinct (wss_clients s) \<and> (\<forall>c \<in> set (wss_clients s). c < next_ws s) \<and>
     (\<forall>uid c. registered s uid c \<longrightarrow>
        c < next_ws s \<and> ws_userId (sockets s c) = Some uid \<and> listening (sockets s c) \<and>
        (uid \<noteq> [] \<longrightarrow> c \<in> set (wss_clients s)))"
proof (cases "registry_inv s")
  case False
  then show ?thesis by (simp add: manager_inv_def)
next
  case True
  then have "distinct (map fst (clients s))" by (simp add: registry_inv_def)
  then have mem: "map_of (clients s) k = Some cs \<longleftrightarrow> (k, cs) \<in> set (clients s)" for k cs
    by simp
  have "(\<forall>entry \<in> set (clients s). \<forall>c \<in> set (snd entry).
          c < next_ws s \<and> ws_userId (sockets s c) = Some (fst entry) \<and> listening (sockets s c) \<and>
          (fst entry \<noteq> [] \<longrightarrow> c \<in> set (wss_clients s))) \<longleftrightarrow>
        (\<forall>uid c. registered s uid c \<longrightarrow>
          c < next_ws s \<and> ws_userId (sockets s c) = Some uid \<and> listening (sockets s c) \<and>
          (uid \<noteq> [] \<longrightarrow> c \<in> set (wss_clients s)))" (is "?L \<longleftrightarrow> ?R")
  proof
    assume l: ?L
    show ?R
    proof (intro allI impI)
      fix uid c
      assume "registered s uid c"
      then obtain cs where "(uid, cs) \<in> set (clients s)" "c \<in> set cs"
        unfolding registered_iff mem by blast
      with l show "c < next_ws s \<and> ws_userId (sockets s c) = Some uid \<and> listening (sockets s c) \<and>
          (uid \<noteq> [] \<longrightarrow> c \<in> set (wss_clients s))" by fastforce
    qed
  next
    assume r: ?R
    show ?L
    proof (intro ballI)
      fix entry c
      assume "entry \<in> set (clients s)" "c \<in> set (snd entry)"
      then have "(fst entry, snd entry) \<in> set (clients s)" "c \<in> set (snd entry)" by simp_all
      then have "registered s (fst entry) c" unfolding registered_iff mem by blast
      with r show "c < next_ws s \<and> ws_userId (sockets s c) = Some (fst entry) \<and> listening (sockets s c) \<and>
          (fst entry \<noteq> [] \<longrightarrow> c \<in> set (wss_clients s))" by blast
    qed
  qed
  then show ?thesis by (simp add: manager_inv_def)
qed

lemma registered_cong: "clients s' = clients s \<Longrightarrow> registered s' uid c = registered s uid c"
  by (simp add: registered_def)

lemma registered_modify [simp]: "registered (modify c f s) uid c' = registered s uid c'"
  by (simp add: registered_def)

lemma registered_deliver [simp]: "registered (deliver A event s) uid c' = registered s uid c'"
  by (simp add: registered_def)

lemma registry_inv_modify [simp]: "registry_inv (modify c f s) = registry_inv s"
  by (simp add: registry_inv_def)

lemma registry_inv_deliver [simp]: "registry_inv (deliver A event s) = registry_inv s"
  by (simp add: registry_inv_def)

text \<open>A change of one socket that keeps its identity and its listeners.\<close>

lemma manager_inv_modify:
  assumes "manager_inv s" "ws_userId (f (sockets s c)) = ws_userId (sockets s c)"
    "listening (f (sockets s c)) = listening (sockets s c)"
  shows "manager_inv (modify c f s)"
  using assms unfolding manager_inv_iff by simp

lemma manager_inv_deliver:
  assumes "manager_inv s"
  shows "manager_inv (deliver A event s)"
  using assms unfolding manager_inv_iff by simp

lemma emit_close_simps [simp]:
  "wss_clients (emit_close c s) = removeAll c (wss_clients s)"
  "next_ws (emit_close c s) = next_ws s"
  "sockets (emit_close c s) c' = (if c' = c then (sockets s c)\<lparr>readyState := CLOSED\<rparr> else sockets s c')"
  by (simp_all add: emit_close_def Let_def)

lemma registered_emit_close:
  "registered (emit_close c s) uid c' \<longleftrightarrow>
   registered s uid c' \<and>
   \<not> (c' = c \<and> listening (sockets s c) \<and> ws_userId (sockets s c) = Some uid \<and> uid \<noteq> [])"
  by (simp add: emit_close_def Let_def registered_close_handler) (simp add: registered_def)

lemma registry_inv_emit_close:
  assumes "registry_inv s"
  shows "registry_inv (emit_close c s)"
proof -
  let ?s2 = "(modify c (\<lambda>w. w\<lparr>readyState := CLOSED\<rparr>) s)\<lparr>wss_clients := removeAll c (wss_clients s)\<rparr>"
  have "registry_inv ?s2" using assms by (simp add: registry_inv_def)
  then have "registry_inv (close_handler c ?s2)" by (rule registry_inv_close_handler)
  with \<open>registry_inv ?s2\<close> show ?thesis by (simp add: emit_close_def Let_def)
qed

lemma manager_inv_emit_close:
  assumes "manager_inv s"
  shows "manager_inv (emit_close c s)"
proof -
  from assms have inv: "registry_inv s" and d: "distinct (wss_clients s)"
    and bound: "\<forall>c \<in> set (wss_clients s). c < next_ws s"
    and reg: "\<And>uid c. registered s uid c \<Longrightarrow>
        c < next_ws s \<and> ws_userId (sockets s c) = Some uid \<and> listening (sockets s c) \<and>
        (uid \<noteq> [] \<longrightarrow> c \<in> set (wss_clients s))"
    unfolding manager_inv_iff by blast+
  have "c' < next_ws (emit_close c s) \<and> ws_userId (sockets (emit_close c s) c') = Some uid \<and>
        listening (sockets (emit_close c s) c') \<and>
        (uid \<noteq> [] \<longrightarrow> c' \<in> set (wss_clients (emit_close c s)))"
    if "registered (emit_close c s) uid c'" for uid c'
  proof -
    from that have r: "registered s uid c'"
      and n: "\<not> (c' = c \<and> listening (sockets s c) \<and> ws_userId (sockets s c) = Some uid \<and> uid \<noteq> [])"
      unfolding registered_emit_close by blast+
    from reg[OF r] n have "uid \<noteq> [] \<longrightarrow> c' \<noteq> c" by blast
    with reg[OF r] show ?thesis by auto
  qed
  with registry_inv_emit_close[OF inv, of c] d bound show ?thesis
    unfolding manager_inv_iff by (simp add: distinct_removeAll)
qed

lemma accept_simps [simp]:
  "wss_clients (accept s) = wss_clients s @ [next_ws s]"
  "next_ws (accept s) = Suc (next_ws s)"
  "clients (accept s) = clients s"
  "sockets (accept s) c = (if c = next_ws s then new_socket else sockets s c)"
  by (simp_all add: accept_def)

lemma registered_accept [simp]: "registered (accept s) uid c = registered s uid c"
  by (simp add: registered_def)

lemma fresh_socket:
  assumes "manager_inv s"
  shows "\<not> registered s uid (next_ws s)" "next_ws s \<notin> set (wss_clients s)"
  using assms unfolding manager_inv_iff by fastforce+

lemma manager_inv_accept:
  assumes "manager_inv s"
  shows "manager_inv (accept s)"
proof -
  from assms have "registry_inv (accept s)" by (simp add: manager_inv_def registry_inv_def)
  moreover have "distinct (wss_clients (accept s))"
    using assms fresh_socket(2)[OF assms] by (simp add: manager_inv_def)
  moreover have "\<forall>c \<in> set (wss_clients (accept s)). c < next_ws (accept s)"
    using assms by (auto simp: manager_inv_def less_Suc_eq)
  moreover have "\<forall>uid c. registered (accept s) uid c \<longrightarrow>
        c < next_ws (accept s) \<and> ws_userId (sockets (accept s) c) = Some uid \<and>
        listening (sockets (accept s) c) \<and> (uid \<noteq> [] \<longrightarrow> c \<in> set (wss_clients (accept s)))"
    using assms fresh_socket(1)[OF assms] unfolding manager_inv_iff by (auto simp: less_Suc_eq)
  ultimately show ?thesis unfolding manager_inv_iff by blast
qed

lemma admit_simps [simp]:
  "wss_clients (admit payload now c s) = wss_clients s"
  "next_ws (admit payload now c s) = next_ws s"
  "clients (admit payload now c s) = register (userId payload) c (clients s)"
  "c' \<noteq> c \<Longrightarrow> sockets (admit payload now c s) c' = sockets s c'"
  "ws_userId (sockets (admit payload now c s) c) = Some (userId payload)"
  "listening (sockets (admit payload now c s) c)"
  "ws_isAlive (sockets (admit payload now c s) c) = Some True"
  by (simp_all add: admit_def sendToClient_deliver)

lemma registered_admit:
  "registered (admit payload now c s) uid c' \<longleftrightarrow>
   registered s uid c' \<or> (uid = userId payload \<and> c' = c)"
proof -
  have "registered (admit payload now c s) uid c' =
        registered (s\<lparr>clients := register (userId payload) c (clients s)\<rparr>) uid c'"
    by (rule registered_cong) simp
  then show ?thesis by (simp add: registered_register)
qed

lemma manager_inv_ws_close:
  "manager_inv s \<Longrightarrow> manager_inv (ws_close code reason c s)"
  unfolding ws_close_def by (rule manager_inv_modify) simp_all

lemma manager_inv_admit:
  assumes "manager_inv s" "c \<in> set (wss_clients s)" "\<forall>uid. \<not> registered s uid c"
  shows "manager_inv (admit payload now c s)"
proof -
  from assms(1) have inv: "registry_inv s" and d: "distinct (wss_clients s)"
    and bound: "\<forall>c \<in> set (wss_clients s). c < next_ws s"
    and reg: "\<And>uid c. registered s uid c \<Longrightarrow>
        c < next_ws s \<and> ws_userId (sockets s c) = Some uid \<and> listening (sockets s c) \<and>
        (uid \<noteq> [] \<longrightarrow> c \<in> set (wss_clients s))"
    unfolding manager_inv_iff by blast+
  have "registry_inv (s\<lparr>clients := register (userId payload) c (clients s)\<rparr>)"
    using inv assms(3) by (rule registry_inv_register)
  then have "registry_inv (admit payload now c s)" by (simp add: registry_inv_def)
  moreover have "c' < next_ws (admit payload now c s) \<and>
        ws_userId (sockets (admit payload now c s) c') = Some uid \<and>
        listening (sockets (admit payload now c s) c') \<and>
        (uid \<noteq> [] \<longrightarrow> c' \<in> set (wss_clients (admit payload now c s)))"
    if "registered (admit payload now c s) uid c'" for uid c'
  proof (cases "c' = c")
    case True
    with that assms(3) have "uid = userId payload" by (simp add: registered_admit)
    with True assms(2) bound show ?thesis by simp
  next
    case False
    with that have "registered s uid c'" by (simp add: registered_admit)
    from reg[OF this] False show ?thesis by simp
  qed
  ultimately show ?thesis using d bound unfolding manager_inv_iff by simp
qed

lemma manager_inv_connection_handler:
  assumes "manager_inv s" "c \<in> set (wss_clients s)" "\<forall>uid. \<not> registered s uid c"
    and "connection_handler lib now c req s = Inr s'"
  shows "manager_inv s'"
proof (cases rule: connection_handler_cases[of lib now c req s])
  case (threw e)
  with assms(4) show ?thesis by simp
next
  case (rejected reason)
  with assms(1,4) show ?thesis by (auto simp: manager_inv_ws_close)
next
  case (admitted payload)
  with manager_inv_admit[OF assms(1-3)] assms(4) show ?thesis by auto
qed

lemma manager_inv_connection:
  assumes "manager_inv s"
  shows "manager_inv (step lib (Connection now req) s)"
proof -
  have a: "manager_inv (accept s)" using assms by (rule manager_inv_accept)
  have b: "next_ws s \<in> set (wss_clients (accept s))" by simp
  have c: "\<forall>uid. \<not> registered (accept s) uid (next_ws s)"
    using fresh_socket(1)[OF assms] by simp
  show ?thesis
  proof (cases "connection_handler lib now (next_ws s) req (accept s)")
    case (Inl e)
    with a show ?thesis by simp
  next
    case (Inr s')
    with manager_inv_connection_handler[OF a b c Inr] show ?thesis by simp
  qed
qed

lemma manager_inv_heartbeat_client:
  assumes "manager_inv s"
  shows "manager_inv (heartbeat_client c s)"
proof (cases "ws_isAlive (sockets s c) = Some False")
  case True
  with assms show ?thesis by (simp add: heartbeat_client_def terminate_def manager_inv_emit_close)
next
  case False
  have "manager_inv (modify c (\<lambda>w. w\<lparr>ws_isAlive := Some False\<rparr>) s)"
    using assms by (rule manager_inv_modify) simp_all
  then have "manager_inv (ping c (modify c (\<lambda>w. w\<lparr>ws_isAlive := Some False\<rparr>) s))"
    unfolding ping_def by (auto intro: manager_inv_modify)
  with False show ?thesis by (simp add: heartbeat_client_def)
qed

lemma manager_inv_fold_heartbeat:
  "manager_inv s \<Longrightarrow> manager_inv (fold heartbeat_client cs s)"
  by (induction cs arbitrary: s) (simp_all add: manager_inv_heartbeat_client)

lemma manager_inv_broadcastToUser:
  "manager_inv s \<Longrightarrow> manager_inv (broadcastToUser uid event s)"
  by (simp add: broadcastToUser_deliver manager_inv_def manager_inv_deliver)

lemma manager_inv_step:
  assumes "manager_inv s"
  shows "manager_inv (step lib a s)"
proof (cases a)
  case (Connection now req)
  with assms show ?thesis by (simp only: manager_inv_connection)
next
  case (Pong c)
  with assms show ?thesis by (simp add: pong_handler_def manager_inv_modify)
next
  case (Message c raw)
  with assms show ?thesis by (simp add: message_handler_def)
next
  case (PeerClosing c)
  with assms show ?thesis by (simp add: manager_inv_modify)
next
  case (Close c)
  with assms show ?thesis by (simp add: manager_inv_emit_close)
next
  case Heartbeat
  with assms show ?thesis by (simp add: heartbeat_def manager_inv_fold_heartbeat)
next
  case (BroadcastToUser uid event)
  with assms show ?thesis by (simp add: manager_inv_broadcastToUser)
next
  case (BroadcastToAll event)
  with assms show ?thesis by (simp add: broadcastToAll_deliver manager_inv_def manager_inv_deliver)
next
  case (BroadcastToAdmins event)
  with assms show ?thesis by (simp add: broadcastToAdmins_deliver manager_inv_def manager_inv_deliver)
next
  case (BroadcastToResourceUsers userIds event)
  have "manager_inv s \<Longrightarrow> manager_inv (fold (\<lambda>uid. broadcastToUser uid event) userIds s)"
    by (induction userIds arbitrary: s) (simp_all add: manager_inv_broadcastToUser)
  with assms BroadcastToResourceUsers show ?thesis by (simp add: broadcastToResourceUsers_def)
qed

lemma manager_inv_run: "manager_inv s \<Longrightarrow> manager_inv (run lib acts s)"
  unfolding run_def by (induction acts arbitrary: s) (simp_all add: manager_inv_step)

lemma manager_inv_initial: "manager_inv initial"
  by (simp add: manager_inv_def registry_inv_def initial_def)

section \<open>Admission and removal preserve the invariant of the registry\<close>

text \<open>
  C3: the removal of the \<open>close\<close> listener, for any connection, and the connection
  handler, for a socket that is not yet registered, preserve the invariant of the registry,
  and so does every step of a run, where the socket of a \<open>connection\<close> event is a new
  one: afterwards a subject-id is a key of \<open>clients\<close> exactly when some connection is
  registered under it, so a set that a removal empties leaves with its key, and no
  connection is registered under two subject-ids.
\<close>

theorem registry_invariant_preserved:
  assumes "registry_inv s"
  shows "\<forall>s'. s' = close_handler c s \<or>
              (connection_handler lib now c req s = Inr s' \<and> (\<forall>uid. \<not> registered s uid c)) \<or>
              (s' = step lib a s \<and> manager_inv s) \<longrightarrow>
            registry_inv s' \<and>
            (\<forall>uid. uid \<in> set (getConnectedUserIds s') \<longleftrightarrow> (\<exists>c'. registered s' uid c')) \<and>
            (\<forall>uid uid' c'. registered s' uid c' \<and> registered s' uid' c' \<longrightarrow> uid = uid')"
proof (intro allI impI)
  fix s'
  assume "s' = close_handler c s \<or>
          (connection_handler lib now c req s = Inr s' \<and> (\<forall>uid. \<not> registered s uid c)) \<or>
          (s' = step lib a s \<and> manager_inv s)"
  moreover have "registry_inv (step lib a s)" if "manager_inv s"
    using manager_inv_step[OF that, of lib a] by (simp add: manager_inv_def)
  ultimately have inv: "registry_inv s'"
    using registry_inv_close_handler[OF assms, of c]
      registry_inv_connection_handler[OF assms, of c lib now req s'] by blast
  have keys: "\<forall>uid. uid \<in> set (getConnectedUserIds s') \<longleftrightarrow> (\<exists>c'. registered s' uid c')"
    using registry_inv_keys[OF inv] by blast
  have one: "\<forall>uid uid' c'. registered s' uid c' \<and> registered s' uid' c' \<longrightarrow> uid = uid'"
    using inv unfolding registry_inv_map by blast
  from inv keys one show "registry_inv s' \<and>
            (\<forall>uid. uid \<in> set (getConnectedUserIds s') \<longleftrightarrow> (\<exists>c'. registered s' uid c')) \<and>
            (\<forall>uid uid' c'. registered s' uid c' \<and> registered s' uid' c' \<longrightarrow> uid = uid')"
    by (intro conjI)
qed

lemma two_tabs_userIds:
  "ws_userId (sockets two_tabs 0) = Some ''u1''"
  "ws_userId (sockets two_tabs (Suc 0)) = Some ''u1''"
  by (simp_all add: two_tabs_def eval_defs)

theorem registry_invariant_preserved_witness:
  "registry_inv two_tabs \<and>
   clients (close_handler 0 two_tabs) = [(''u1'', [1])] \<and> registry_inv (close_handler 0 two_tabs) \<and>
   clients (close_handler 1 (close_handler 0 two_tabs)) = [] \<and>
   registry_inv (close_handler 1 (close_handler 0 two_tabs)) \<and>
   connection_handler sample_lib ''t3'' 2 (query_request ''token-a1'') two_tabs =
     Inr (admit \<lparr> userId = ''a1'', username = ''root'', email = ''root@example.org'', role = ''admin'' \<rparr>
            ''t3'' 2 two_tabs) \<and>
   clients (admit \<lparr> userId = ''a1'', username = ''root'', email = ''root@example.org'', role = ''admin'' \<rparr>
              ''t3'' 2 two_tabs) = [(''u1'', [0, 1]), (''a1'', [2])] \<and>
   registry_inv (admit \<lparr> userId = ''a1'', username = ''root'', email = ''root@example.org'', role = ''admin'' \<rparr>
                   ''t3'' 2 two_tabs)"
proof -
  let ?root = "\<lparr> userId = ''a1'', username = ''root'', email = ''root@example.org'', role = ''admin'' \<rparr>"
  have inv: "registry_inv two_tabs"
    by (simp add: registry_inv_def two_tabs_clients)
  have fresh: "\<forall>uid. \<not> registered two_tabs uid 2"
    by (simp add: registered_def two_tabs_clients)
  have s0: "close_handler 0 two_tabs = two_tabs\<lparr>clients := [(''u1'', [1])]\<rparr>"
    by (simp add: close_handler_def two_tabs_userIds two_tabs_clients Set_delete_def)
  then have c0: "clients (close_handler 0 two_tabs) = [(''u1'', [1])]" by simp
  have inv0: "registry_inv (close_handler 0 two_tabs)"
    using registry_invariant_preserved[OF inv, where c = 0] by blast
  have c1: "clients (close_handler 1 (close_handler 0 two_tabs)) = []"
    by (simp only: s0) (simp add: close_handler_def two_tabs_userIds Set_delete_def)
  have inv1: "registry_inv (close_handler 1 (close_handler 0 two_tabs))"
    using registry_invariant_preserved[OF inv0, where c = 1] by blast
  have "extract_token [(''token'', ''token-a1'')] (authorization (query_request ''token-a1'')) = Some ''token-a1''"
    "''token-a1'' \<noteq> []" "verifyToken sample_lib ''token-a1'' = Some ?root"
    by (simp_all add: extract_token_def verifyToken_def sample_lib_def sample_verify_def)
  from connection_handler_admits[OF parse_query_request this]
  have h: "connection_handler sample_lib ''t3'' 2 (query_request ''token-a1'') two_tabs =
          Inr (admit ?root ''t3'' 2 two_tabs)" .
  have c2: "clients (admit ?root ''t3'' 2 two_tabs) = [(''u1'', [0, 1]), (''a1'', [2])]"
    by (simp add: clients_admit two_tabs_clients register_def Set_add_def)
  have inv2: "registry_inv (admit ?root ''t3'' 2 two_tabs)"
    using registry_invariant_preserved[OF inv, where c = 2 and lib = sample_lib and now = "''t3''"
        and req = "query_request ''token-a1''"] h fresh
    by blast
  from inv c0 inv0 c1 inv1 h c2 inv2 show ?thesis by (intro conjI)
qed

section \<open>The close events of a round may come after it\<close>

lemma close_handler_modify:
  assumes "x \<noteq> y"
  shows "close_handler x (modify y f s) = modify y f (close_handler x s)"
  using assms
  by (simp add: close_handler_def modify_def Let_def split: option.splits)

lemma emit_close_modify:
  assumes "x \<noteq> y"
  shows "emit_close x (modify y f s) = modify y f (emit_close x s)"
proof -
  have a: "modify x g (modify y f s) = modify y f (modify x g s)" for g
    using assms by (auto simp: modify_def fun_upd_twist)
  have b: "(modify y f s')\<lparr>wss_clients := ws\<rparr> = modify y f (s'\<lparr>wss_clients := ws\<rparr>)" for s' ws
    by (simp add: modify_def)
  show ?thesis
    using assms by (simp add: emit_close_def Let_def a b close_handler_modify)
qed

lemma emit_close_terminate_call: "emit_close x (terminate_call x s) = emit_close x s"
  by (simp add: emit_close_def terminate_call_def Let_def modify_def close_handler_def
      split: option.splits)

lemma emit_close_sweep_client:
  assumes "x \<noteq> y"
  shows "emit_close x (sweep_client y s) = sweep_client y (emit_close x s)"
  using assms
  by (simp add: sweep_client_def terminate_call_def ping_def emit_close_modify)

lemma emit_close_fold_sweep:
  "x \<notin> set ys \<Longrightarrow> emit_close x (fold sweep_client ys s) = fold sweep_client ys (emit_close x s)"
proof (induction ys arbitrary: s)
  case Nil
  then show ?case by simp
next
  case (Cons y ys)
  then show ?case by (simp add: emit_close_sweep_client[symmetric])
qed

lemma sweep_client_alive [simp]:
  "c \<noteq> x \<Longrightarrow> ws_isAlive (sockets (sweep_client x s) c) = ws_isAlive (sockets s c)"
  by (simp add: sweep_client_def terminate_call_def ping_def)

lemma heartbeat_client_alive:
  "c \<noteq> x \<Longrightarrow> ws_isAlive (sockets (heartbeat_client x s) c) = ws_isAlive (sockets s c)"
  by (simp add: heartbeat_client_def terminate_def ping_def)

lemma sweep_then_close_fold:
  assumes "distinct xs"
  shows "fold emit_close (filter (\<lambda>c. ws_isAlive (sockets s c) = Some False) xs) (fold sweep_client xs s) =
         fold heartbeat_client xs s"
  using assms
proof (induction xs arbitrary: s)
  case Nil
  then show ?case by simp
next
  case (Cons x xs)
  let ?s1 = "heartbeat_client x s"
  from Cons.prems have x: "x \<notin> set xs" and d: "distinct xs" by simp_all
  have same: "filter (\<lambda>c. ws_isAlive (sockets ?s1 c) = Some False) xs =
              filter (\<lambda>c. ws_isAlive (sockets s c) = Some False) xs"
  proof (rule filter_cong[OF refl])
    fix c
    assume "c \<in> set xs"
    with x have "c \<noteq> x" by auto
    then show "(ws_isAlive (sockets ?s1 c) = Some False) = (ws_isAlive (sockets s c) = Some False)"
      by (simp add: heartbeat_client_alive)
  qed
  show ?case
  proof (cases "ws_isAlive (sockets s x) = Some False")
    case True
    then have s1: "?s1 = emit_close x s" by (simp add: heartbeat_client_def terminate_def)
    have "fold emit_close (filter (\<lambda>c. ws_isAlive (sockets s c) = Some False) (x # xs))
            (fold sweep_client (x # xs) s) =
          fold emit_close (filter (\<lambda>c. ws_isAlive (sockets s c) = Some False) xs)
            (emit_close x (fold sweep_client xs (terminate_call x s)))"
      using True by (simp add: sweep_client_def)
    also have "emit_close x (fold sweep_client xs (terminate_call x s)) = fold sweep_client xs ?s1"
      using x by (simp add: emit_close_fold_sweep emit_close_terminate_call s1)
    finally show ?thesis using Cons.IH[OF d, of ?s1] same by simp
  next
    case False
    then have "sweep_client x s = ?s1" by (simp add: sweep_client_def heartbeat_client_def)
    with False Cons.IH[OF d, of ?s1] same show ?thesis by simp
  qed
qed

lemma sweep_then_close_heartbeat:
  "distinct (wss_clients s) \<Longrightarrow> sweep_then_close s = heartbeat s"
  by (simp add: sweep_then_close_def heartbeat_def sweep_then_close_fold)

section \<open>A connection that does not answer\<close>

lemma ping_simps [simp]:
  "wss_clients (ping x s) = wss_clients s"
  "next_ws (ping x s) = next_ws s"
  "clients (ping x s) = clients s"
  "ws_userId (sockets (ping x s) c) = ws_userId (sockets s c)"
  "ws_isAlive (sockets (ping x s) c) = ws_isAlive (sockets s c)"
  "readyState (sockets (ping x s) c) = readyState (sockets s c)"
  "listening (sockets (ping x s) c) = listening (sockets s c)"
  by (simp_all add: ping_def)

lemma registered_ping [simp]: "registered (ping x s) uid c = registered s uid c"
  by (simp add: registered_def)

lemma followed_registered:
  assumes "followed s c" "registered s uid c"
  shows "uid \<noteq> []" "ws_userId (sockets s c) = Some uid" "listening (sockets s c)" "c \<in> set (wss_clients s)"
proof -
  from assms have inv: "manager_inv s" and nonempty: "ws_userId (sockets s c) \<noteq> Some []"
    by (simp_all add: followed_def)
  from inv assms(2) have r: "ws_userId (sockets s c) = Some uid" "listening (sockets s c)"
    "uid \<noteq> [] \<longrightarrow> c \<in> set (wss_clients s)"
    unfolding manager_inv_iff by blast+
  from r(1) nonempty show "uid \<noteq> []" by auto
  with r show "ws_userId (sockets s c) = Some uid" "listening (sockets s c)" "c \<in> set (wss_clients s)"
    by simp_all
qed

lemma gone_emit_close:
  assumes "followed s c"
  shows "gone (emit_close c s) c"
proof -
  have "\<not> registered (emit_close c s) uid c" for uid
    using followed_registered[OF assms] by (auto simp: registered_emit_close)
  then show ?thesis by (simp add: gone_def)
qed

lemma view_emit_close_other:
  assumes "x \<noteq> c"
  shows "sockets (emit_close x s) c = sockets s c"
    "c \<in> set (wss_clients (emit_close x s)) \<longleftrightarrow> c \<in> set (wss_clients s)"
    "registered (emit_close x s) uid c \<longleftrightarrow> registered s uid c"
  using assms by (auto simp: registered_emit_close)

lemma followed_emit_close:
  assumes "followed s c"
  shows "followed (emit_close x s) c"
proof (cases "x = c")
  case True
  with assms gone_emit_close[OF assms] show ?thesis
    by (simp add: followed_def manager_inv_emit_close)
next
  case False
  with assms show ?thesis
    by (simp add: followed_def manager_inv_emit_close gone_def view_emit_close_other)
qed

lemma gone_emit_close_stable:
  assumes "followed s c" "gone s c"
  shows "gone (emit_close x s) c"
proof (cases "x = c")
  case True
  with gone_emit_close[OF assms(1)] show ?thesis by simp
next
  case False
  with assms(2) show ?thesis by (simp add: gone_def view_emit_close_other)
qed

lemma doomed_emit_close:
  assumes "followed s c" "doomed s c"
  shows "doomed (emit_close x s) c"
proof (cases "x = c")
  case True
  with gone_emit_close[OF assms(1)] show ?thesis by (simp add: doomed_def)
next
  case False
  with assms(2) show ?thesis by (simp add: doomed_def gone_def view_emit_close_other)
qed

lemma heartbeat_client_dead:
  assumes "ws_isAlive (sockets s x) = Some False"
  shows "heartbeat_client x s = emit_close x s"
  using assms by (simp add: heartbeat_client_def terminate_def)

lemma heartbeat_client_probe:
  assumes "ws_isAlive (sockets s x) \<noteq> Some False"
  shows "wss_clients (heartbeat_client x s) = wss_clients s"
    "next_ws (heartbeat_client x s) = next_ws s"
    "registered (heartbeat_client x s) uid c = registered s uid c"
    "ws_userId (sockets (heartbeat_client x s) c) = ws_userId (sockets s c)"
    "readyState (sockets (heartbeat_client x s) c) = readyState (sockets s c)"
    "ws_isAlive (sockets (heartbeat_client x s) c) = (if c = x then Some False else ws_isAlive (sockets s c))"
  using assms by (simp_all add: heartbeat_client_def)

lemma followed_heartbeat_client:
  assumes "followed s c"
  shows "followed (heartbeat_client x s) c"
proof (cases "ws_isAlive (sockets s x) = Some False")
  case True
  with followed_emit_close[OF assms] show ?thesis by (simp add: heartbeat_client_dead)
next
  case False
  from assms have "manager_inv (heartbeat_client x s)"
    by (simp add: followed_def manager_inv_heartbeat_client)
  with assms show ?thesis
    by (simp add: followed_def gone_def heartbeat_client_probe[OF False])
qed

lemma gone_heartbeat_client:
  assumes "followed s c" "gone s c"
  shows "gone (heartbeat_client x s) c"
proof (cases "ws_isAlive (sockets s x) = Some False")
  case True
  with gone_emit_close_stable[OF assms] show ?thesis by (simp add: heartbeat_client_dead)
next
  case False
  with assms(2) show ?thesis by (simp add: gone_def heartbeat_client_probe[OF False])
qed

lemma doomed_heartbeat_client:
  assumes "followed s c" "doomed s c"
  shows "doomed (heartbeat_client x s) c"
proof (cases "ws_isAlive (sockets s x) = Some False")
  case True
  with doomed_emit_close[OF assms] show ?thesis by (simp add: heartbeat_client_dead)
next
  case False
  with assms(2) show ?thesis by (auto simp: doomed_def gone_def heartbeat_client_probe[OF False])
qed

text \<open>The round of the connection itself: it is marked, or, if it was marked, closed.\<close>

lemma heartbeat_client_self:
  assumes "followed s c"
  shows "doomed (heartbeat_client c s) c" "doomed s c \<Longrightarrow> gone (heartbeat_client c s) c"
proof -
  show "doomed (heartbeat_client c s) c"
  proof (cases "ws_isAlive (sockets s c) = Some False")
    case True
    with gone_emit_close[OF assms] show ?thesis by (simp add: heartbeat_client_dead doomed_def)
  next
    case False
    then show ?thesis by (simp add: doomed_def heartbeat_client_probe[OF False])
  qed
  assume d: "doomed s c"
  show "gone (heartbeat_client c s) c"
  proof (cases "ws_isAlive (sockets s c) = Some False")
    case True
    with gone_emit_close[OF assms] show ?thesis by (simp add: heartbeat_client_dead)
  next
    case False
    with d have "gone s c" by (simp add: doomed_def)
    with assms show ?thesis by (rule gone_heartbeat_client)
  qed
qed

lemma fold_heartbeat_client:
  assumes "followed s c"
  shows "followed (fold heartbeat_client xs s) c \<and>
         (gone s c \<longrightarrow> gone (fold heartbeat_client xs s) c) \<and>
         (doomed s c \<longrightarrow> doomed (fold heartbeat_client xs s) c) \<and>
         (c \<in> set xs \<longrightarrow> doomed (fold heartbeat_client xs s) c \<and>
            (doomed s c \<longrightarrow> gone (fold heartbeat_client xs s) c))"
  using assms
proof (induction xs arbitrary: s)
  case Nil
  then show ?case by simp
next
  case (Cons x xs)
  let ?s1 = "heartbeat_client x s"
  have f1: "followed ?s1 c" using Cons.prems by (rule followed_heartbeat_client)
  note ih = Cons.IH[OF f1]
  have g: "gone s c \<Longrightarrow> gone ?s1 c" using Cons.prems by (rule gone_heartbeat_client)
  have d: "doomed s c \<Longrightarrow> doomed ?s1 c" using Cons.prems by (rule doomed_heartbeat_client)
  have self: "x = c \<Longrightarrow> doomed ?s1 c" "x = c \<Longrightarrow> doomed s c \<Longrightarrow> gone ?s1 c"
    using heartbeat_client_self[OF Cons.prems] by simp_all
  show ?case
    using ih g d self by (cases "x = c") auto
qed

lemma heartbeat_followed:
  assumes "followed s c"
  shows "followed (heartbeat s) c" "gone s c \<Longrightarrow> gone (heartbeat s) c"
    "doomed (heartbeat s) c" "doomed s c \<Longrightarrow> gone (heartbeat s) c"
proof -
  note f = fold_heartbeat_client[OF assms, of "wss_clients s"]
  show "followed (heartbeat s) c" using f by (simp add: heartbeat_def)
  show g: "gone s c \<Longrightarrow> gone (heartbeat s) c" using f by (simp add: heartbeat_def)
  have "gone s c" if "c \<notin> set (wss_clients s)" using that assms by (simp add: followed_def)
  then show "doomed (heartbeat s) c"
    using f g by (cases "c \<in> set (wss_clients s)") (auto simp: heartbeat_def doomed_def)
  assume "doomed s c"
  with \<open>c \<notin> set (wss_clients s) \<Longrightarrow> gone s c\<close> show "gone (heartbeat s) c"
    using f g by (cases "c \<in> set (wss_clients s)") (auto simp: heartbeat_def)
qed

text \<open>A transition that leaves everything the manager knows of a connection as it was.\<close>

lemma same_view:
  assumes "followed s c" "manager_inv s'" "next_ws s \<le> next_ws s'"
    "ws_userId (sockets s' c) = ws_userId (sockets s c)"
    "readyState (sockets s' c) = readyState (sockets s c)"
    "c \<in> set (wss_clients s') \<longleftrightarrow> c \<in> set (wss_clients s)"
    "\<And>uid. registered s' uid c \<longleftrightarrow> registered s uid c"
  shows "followed s' c" "gone s c \<Longrightarrow> gone s' c"
    "ws_isAlive (sockets s' c) = ws_isAlive (sockets s c) \<Longrightarrow> doomed s c \<Longrightarrow> doomed s' c"
proof -
  show g: "gone s c \<Longrightarrow> gone s' c" using assms(5-7) by (simp add: gone_def)
  from assms(1) have "gone s c \<or> c \<in> set (wss_clients s)" by (simp add: followed_def)
  with g assms(6) have "gone s' c \<or> c \<in> set (wss_clients s')" by blast
  with assms(1-4) show "followed s' c" by (simp add: followed_def)
  show "ws_isAlive (sockets s' c) = ws_isAlive (sockets s c) \<Longrightarrow> doomed s c \<Longrightarrow> doomed s' c"
    using g by (auto simp: doomed_def)
qed

lemma ws_close_simps [simp]:
  "wss_clients (ws_close code reason x s) = wss_clients s"
  "next_ws (ws_close code reason x s) = next_ws s"
  "clients (ws_close code reason x s) = clients s"
  "c \<noteq> x \<Longrightarrow> sockets (ws_close code reason x s) c = sockets s c"
  by (simp_all add: ws_close_def)

lemma registered_ws_close [simp]: "registered (ws_close code reason x s) uid c = registered s uid c"
  by (simp add: registered_def)

lemma connection_view:
  assumes "c < next_ws s"
  shows "next_ws s \<le> next_ws (step lib (Connection now req) s)"
    "sockets (step lib (Connection now req) s) c = sockets s c"
    "c \<in> set (wss_clients (step lib (Connection now req) s)) \<longleftrightarrow> c \<in> set (wss_clients s)"
    "registered (step lib (Connection now req) s) uid c \<longleftrightarrow> registered s uid c"
proof -
  from assms have ne: "c \<noteq> next_ws s" by simp
  show "next_ws s \<le> next_ws (step lib (Connection now req) s)"
    by (cases rule: connection_handler_cases[of lib now "next_ws s" req "accept s"]) simp_all
  show "sockets (step lib (Connection now req) s) c = sockets s c"
    using ne by (cases rule: connection_handler_cases[of lib now "next_ws s" req "accept s"]) simp_all
  show "c \<in> set (wss_clients (step lib (Connection now req) s)) \<longleftrightarrow> c \<in> set (wss_clients s)"
    using ne by (cases rule: connection_handler_cases[of lib now "next_ws s" req "accept s"]) simp_all
  show "registered (step lib (Connection now req) s) uid c \<longleftrightarrow> registered s uid c"
    using ne by (cases rule: connection_handler_cases[of lib now "next_ws s" req "accept s"])
      (simp_all add: registered_admit)
qed

lemma broadcastToUser_view:
  assumes "followed s c"
  shows "followed (broadcastToUser uid event s) c"
    "gone s c \<Longrightarrow> gone (broadcastToUser uid event s) c"
    "doomed s c \<Longrightarrow> doomed (broadcastToUser uid event s) c"
proof -
  from assms have inv: "manager_inv s" by (simp add: followed_def)
  then have r: "registry_inv s" by (simp add: manager_inv_def)
  note d = broadcastToUser_deliver[OF r]
  have m: "manager_inv (broadcastToUser uid event s)" using inv by (rule manager_inv_broadcastToUser)
  show "followed (broadcastToUser uid event s) c"
    by (rule same_view(1)[OF assms m]) (simp_all add: d)
  show "gone s c \<Longrightarrow> gone (broadcastToUser uid event s) c"
    by (rule same_view(2)[OF assms m]) (simp_all add: d)
  show "doomed s c \<Longrightarrow> doomed (broadcastToUser uid event s) c"
    by (rule same_view(3)[OF assms m]) (simp_all add: d)
qed

lemma fold_broadcastToUser_view:
  assumes "followed s c"
  shows "followed (fold (\<lambda>uid. broadcastToUser uid event) userIds s) c \<and>
         (gone s c \<longrightarrow> gone (fold (\<lambda>uid. broadcastToUser uid event) userIds s) c) \<and>
         (doomed s c \<longrightarrow> doomed (fold (\<lambda>uid. broadcastToUser uid event) userIds s) c)"
  using assms
proof (induction userIds arbitrary: s)
  case Nil
  then show ?case by simp
next
  case (Cons uid userIds)
  from Cons.IH[OF broadcastToUser_view(1)[OF Cons.prems, of uid event]]
    broadcastToUser_view(2,3)[OF Cons.prems, of uid event]
  show ?case by auto
qed

lemma step_followed:
  assumes "followed s c"
  shows "followed (step lib a s) c \<and> (gone s c \<longrightarrow> gone (step lib a s) c) \<and>
         (a \<noteq> Pong c \<longrightarrow> doomed s c \<longrightarrow> doomed (step lib a s) c)"
proof -
  from assms have inv: "manager_inv s" and lt: "c < next_ws s" by (simp_all add: followed_def)
  then have r: "registry_inv s" by (simp add: manager_inv_def)
  have m: "manager_inv (step lib a s)" using inv by (rule manager_inv_step)
  show ?thesis
  proof (cases a)
    case (Connection now req)
    note v = connection_view[OF lt, of lib now req]
    from m have m': "manager_inv (step lib (Connection now req) s)" by (simp only: Connection)
    show ?thesis
      unfolding Connection
      using same_view[OF assms m' v(1), of ] v(2-4) by simp
  next
    case (Pong x)
    show ?thesis
    proof (cases "x \<in> set (wss_clients s) \<and> listening (sockets s x)")
      case False
      with Pong assms show ?thesis by auto
    next
      case True
      from m Pong True have m': "manager_inv (pong_handler x s)" by simp
      from same_view[OF assms m'] True Pong show ?thesis
        by (auto simp: pong_handler_def)
    qed
  next
    case (Message x raw)
    with assms show ?thesis by (simp add: message_handler_def)
  next
    case (PeerClosing x)
    show ?thesis
    proof (cases "x \<in> set (wss_clients s)")
      case False
      with PeerClosing assms show ?thesis by simp
    next
      case True
      let ?s' = "modify x (\<lambda>w. w\<lparr>readyState := CLOSING\<rparr>) s"
      from m PeerClosing True have m': "manager_inv ?s'" by simp
      show ?thesis
      proof (cases "x = c")
        case same: True
        with True have "followed ?s' c" using assms m' by (simp add: followed_def)
        moreover from same True have "\<not> gone s c" by (simp add: gone_def)
        moreover from same True have "doomed s c \<Longrightarrow> doomed ?s' c"
          by (simp add: doomed_def gone_def)
        ultimately show ?thesis using PeerClosing True by auto
      next
        case False
        from same_view[OF assms m'] False PeerClosing True show ?thesis by simp
      qed
    qed
  next
    case (Close x)
    with assms followed_emit_close[OF assms] gone_emit_close_stable[OF assms]
      doomed_emit_close[OF assms]
    show ?thesis by auto
  next
    case Heartbeat
    with heartbeat_followed[OF assms] show ?thesis by auto
  next
    case (BroadcastToUser uid event)
    with broadcastToUser_view[OF assms] show ?thesis by auto
  next
    case (BroadcastToAll event)
    from m BroadcastToAll have m': "manager_inv (broadcastToAll event s)" by simp
    from same_view[OF assms m'] BroadcastToAll show ?thesis
      by (simp add: broadcastToAll_deliver[OF r])
  next
    case (BroadcastToAdmins event)
    from m BroadcastToAdmins have m': "manager_inv (broadcastToAdmins event s)" by simp
    from same_view[OF assms m'] BroadcastToAdmins show ?thesis
      by (simp add: broadcastToAdmins_deliver[OF r])
  next
    case (BroadcastToResourceUsers userIds event)
    with fold_broadcastToUser_view[OF assms] show ?thesis
      by (simp add: broadcastToResourceUsers_def)
  qed
qed

lemma run_followed:
  assumes "followed s c" "Pong c \<notin> set acts"
  shows "followed (run lib acts s) c \<and> (gone s c \<longrightarrow> gone (run lib acts s) c) \<and>
         (doomed s c \<longrightarrow> doomed (run lib acts s) c)"
  using assms unfolding run_def
proof (induction acts arbitrary: s)
  case Nil
  then show ?case by simp
next
  case (Cons a acts)
  from Cons.prems have "a \<noteq> Pong c" "Pong c \<notin> set acts" by auto
  with step_followed[OF Cons.prems(1), of lib a] Cons.IH[of "step lib a s"]
  show ?case by auto
qed

lemma run_append: "run lib (xs @ ys) s = run lib ys (run lib xs s)"
  by (simp add: run_def)

lemma run_Cons: "run lib (a # acts) s = run lib acts (step lib a s)"
  by (simp add: run_def)

lemma run_Nil: "run lib [] s = s"
  by (simp add: run_def)

lemma registered_followed:
  assumes "manager_inv s" "registered s uid c" "uid \<noteq> []"
  shows "followed s c"
proof -
  from assms(1,2) have "c < next_ws s" "ws_userId (sockets s c) = Some uid"
    "uid \<noteq> [] \<longrightarrow> c \<in> set (wss_clients s)"
    unfolding manager_inv_iff by blast+
  with assms(1,3) show ?thesis by (simp add: followed_def)
qed

text \<open>
  Where the subject-id is not the empty string, a silent connection is removed as C9 says.
  Take a state of the invariant and a connection registered under such a subject-id.
  Whatever else happens before the next round of the heartbeat and between that round and
  the one after, if no pong of the connection arrives, then after the second round its
  socket has closed, the server has dropped it and the registry holds it under no subject;
  its subject-id is then among the connected ones only if another connection is registered
  under it.
\<close>

theorem unanswered_probe_removed:
  fixes lib :: library
  assumes "manager_inv s" "registered s uid c" "uid \<noteq> []"
    and "Pong c \<notin> set before" "Pong c \<notin> set between"
  defines "s' \<equiv> run lib (before @ Heartbeat # between @ [Heartbeat]) s"
  shows "readyState (sockets s' c) = CLOSED \<and> c \<notin> set (wss_clients s') \<and>
         (\<forall>u. \<not> registered s' u c) \<and>
         (uid \<in> set (getConnectedUserIds s') \<longrightarrow> (\<exists>c'. c' \<noteq> c \<and> registered s' uid c'))"
proof -
  let ?s1 = "run lib before s"
  let ?s2 = "heartbeat ?s1"
  let ?s3 = "run lib between ?s2"
  have s': "s' = heartbeat ?s3"
    by (simp add: s'_def run_append run_Cons run_Nil)
  have f0: "followed s c" using assms(1-3) by (rule registered_followed)
  have f1: "followed ?s1 c" using run_followed[OF f0 assms(4)] by simp
  have f2: "followed ?s2 c" and d2: "doomed ?s2 c" using heartbeat_followed[OF f1] by simp_all
  have f3: "followed ?s3 c" and d3: "doomed ?s3 c" using run_followed[OF f2 assms(5)] d2 by simp_all
  have f4: "followed s' c" and g4: "gone s' c"
    using heartbeat_followed[OF f3] d3 by (simp_all add: s')
  from f4 have "registry_inv s'" by (simp add: followed_def manager_inv_def)
  from registry_inv_keys[OF this]
  have "uid \<in> set (getConnectedUserIds s') \<longleftrightarrow> (\<exists>c'. registered s' uid c')" .
  with g4 show ?thesis by (auto simp: gone_def)
qed

lemmas heartbeat_defs = heartbeat_def heartbeat_client_def terminate_def emit_close_def ping_def
  pong_handler_def close_handler_def Set_delete_def Let_def

lemma manager_inv_two_tabs: "manager_inv two_tabs"
  unfolding two_tabs_def by (rule manager_inv_run[OF manager_inv_initial])

lemma manager_inv_mixed_roles: "manager_inv mixed_roles"
  unfolding mixed_roles_def by (rule manager_inv_run[OF manager_inv_initial])

lemma silent_and_answering_clients: "clients silent_and_answering = [(''u1'', [1])]"
  by (simp add: silent_and_answering_def two_tabs_def eval_defs heartbeat_defs)

lemma all_silent_clients: "clients all_silent = []"
  by (simp add: all_silent_def mixed_roles_def eval_defs heartbeat_defs)

theorem unanswered_probe_removed_witness:
  "manager_inv two_tabs \<and> registered two_tabs ''u1'' 0 \<and>
   readyState (sockets silent_and_answering 0) = CLOSED \<and>
   0 \<notin> set (wss_clients silent_and_answering) \<and>
   getConnectedUserIds silent_and_answering = [''u1''] \<and> registered silent_and_answering ''u1'' 1 \<and>
   manager_inv mixed_roles \<and> registered mixed_roles ''u1'' 1 \<and>
   readyState (sockets all_silent 1) = CLOSED \<and> getConnectedUserIds all_silent = []"
proof -
  have r0: "registered two_tabs ''u1'' 0" by (simp add: registered_def two_tabs_clients)
  have r1: "registered mixed_roles ''u1'' 1" by (simp add: registered_def mixed_roles_clients)
  have p0: "Pong 0 \<notin> set []" "Pong 0 \<notin> set [Pong 1]" by simp_all
  have p1: "Pong 1 \<notin> set []" by simp
  from unanswered_probe_removed[OF manager_inv_two_tabs r0 _ p0, where lib = sample_lib]
  have a: "readyState (sockets silent_and_answering 0) = CLOSED \<and>
           0 \<notin> set (wss_clients silent_and_answering)"
    by (simp add: silent_and_answering_def)
  from unanswered_probe_removed[OF manager_inv_mixed_roles r1 _ p1 p1, where lib = sample_lib]
  have b: "readyState (sockets all_silent 1) = CLOSED"
    by (simp add: all_silent_def)
  from a b r0 r1 manager_inv_two_tabs manager_inv_mixed_roles show ?thesis
    by (simp add: getConnectedUserIds_def silent_and_answering_clients all_silent_clients registered_def)
qed

text \<open>
  C9 at a connection whose subject-id is the empty string: registration takes the empty
  string for a key as it takes any other, two silent rounds close the socket, and the
  \<open>close\<close> listener, whose test \<open>if (ws.userId)\<close> fails on the empty string, leaves
  the closed socket in the registry and its key among the connected subject-ids.
\<close>

theorem empty_subject_id_never_removed:
  "registered (step sample_lib (Connection ''t1'' anonymous_request) initial) [] 0 \<and>
   readyState (sockets anonymous_silent 0) = CLOSED \<and>
   0 \<notin> set (wss_clients anonymous_silent) \<and>
   registered anonymous_silent [] 0 \<and>
   getConnectedUserIds anonymous_silent = [[]]"
  by (simp add: anonymous_silent_def anonymous_request_def registered_def getConnectedUserIds_def
      eval_defs heartbeat_defs)

end
